theory Spec2Isabelle
  imports Main "HOL-Library.Word"
begin

section \<open>Extents and extent sets of the payload generator\<close>

text \<open>
  A shallow embedding of \<^verbatim>\<open>payload_generator/extent_ranges.cc\<close>. Block indices and
  block counts are \<^verbatim>\<open>uint64_t\<close>, modelled as 64-bit words, so that every sum
  \<^verbatim>\<open>start_block() + num_blocks()\<close> wraps as the C++ does. The ordered container
  \<^verbatim>\<open>std::set<Extent, ExtentLess>\<close> is a list kept in the order of the comparator, and
  an iterator is an index into it (\<^verbatim>\<open>end()\<close> is the length). Dereferencing
  \<^verbatim>\<open>end()\<close> and a failed \<^verbatim>\<open>CHECK\<close> are values of the type \<open>failure\<close>.
\<close>

subsection \<open>Data model\<close>

type_synonym u64 = "64 word"

record Extent =
  start_block :: u64
  num_blocks :: u64

datatype failure = CheckFailed | UndefinedBehaviour

text \<open>
  Modelled from the spec: the reserved sentinel of \<^verbatim>\<open>start_block\<close> ("sparse hole"),
  declared in \<^verbatim>\<open>payload_consumer/payload_constants.h\<close>, which is not part of the
  sources at hand. It is the largest 64-bit value.
\<close>
definition kSparseHole :: u64 where
  "kSparseHole = 0xFFFFFFFFFFFFFFFF"

definition ExtentForRange :: "u64 \<Rightarrow> u64 \<Rightarrow> Extent" where
  "ExtentForRange start_block' num_blocks' =
     \<lparr>start_block = start_block', num_blocks = num_blocks'\<rparr>"

text \<open>
  Modelled from the spec: a default-constructed \<^verbatim>\<open>Extent\<close> (the message type is
  declared outside the sources at hand), both fields zero: the "empty extent".
\<close>
definition EmptyExtent :: Extent where
  "EmptyExtent = \<lparr>start_block = 0, num_blocks = 0\<rparr>"

text \<open>
  Modelled from the spec: the comparator \<^verbatim>\<open>ExtentLess\<close> of the header
  \<^verbatim>\<open>extent_ranges.h\<close>, which is not part of the sources at hand. Extents are ordered
  by \<^verbatim>\<open>start_block\<close>, ties broken by \<^verbatim>\<open>num_blocks\<close>.
\<close>
definition ExtentLess :: "Extent \<Rightarrow> Extent \<Rightarrow> bool" where
  "ExtentLess x y =
     (if start_block x = start_block y then num_blocks x < num_blocks y
      else start_block x < start_block y)"

type_synonym ExtentSet = "Extent list"

text \<open>\<^verbatim>\<open>std::set::lower_bound\<close>: the first position whose element is not less than \<open>x\<close>.\<close>
definition lower_bound :: "ExtentSet \<Rightarrow> Extent \<Rightarrow> nat" where
  "lower_bound xs x = length (takeWhile (\<lambda>y. ExtentLess y x) xs)"

text \<open>\<^verbatim>\<open>std::set::upper_bound\<close>: the first position whose element is greater than \<open>x\<close>.\<close>
definition upper_bound :: "ExtentSet \<Rightarrow> Extent \<Rightarrow> nat" where
  "upper_bound xs x = length (takeWhile (\<lambda>y. \<not> ExtentLess x y) xs)"

text \<open>\<^verbatim>\<open>std::set::insert\<close>: in order, and not at all when an equivalent element is there.\<close>
fun set_insert :: "Extent \<Rightarrow> ExtentSet \<Rightarrow> ExtentSet" where
  "set_insert x [] = [x]"
| "set_insert x (y # ys) =
     (if ExtentLess x y then x # y # ys
      else if ExtentLess y x then y # set_insert x ys
      else y # ys)"

text \<open>\<^verbatim>\<open>std::set::erase(first, last)\<close> on positions.\<close>
definition erase :: "ExtentSet \<Rightarrow> nat \<Rightarrow> nat \<Rightarrow> ExtentSet" where
  "erase xs first_it last_it = take first_it xs @ drop last_it xs"

record ExtentRanges =
  extent_set :: ExtentSet
  blocks :: u64
  merge_touching_extents :: bool

definition empty_ranges :: "bool \<Rightarrow> ExtentRanges" where
  "empty_ranges merge = \<lparr>extent_set = [], blocks = 0, merge_touching_extents = merge\<rparr>"

subsection \<open>Relations between two extents\<close>

definition ExtentsOverlapOrTouch :: "Extent \<Rightarrow> Extent \<Rightarrow> bool" where
  "ExtentsOverlapOrTouch a b =
     (if start_block a = start_block b then True
      else if start_block a = kSparseHole \<or> start_block b = kSparseHole then False
      else if start_block a < start_block b
        then start_block a + num_blocks a \<ge> start_block b
        else start_block b + num_blocks b \<ge> start_block a)"

definition ExtentsOverlap :: "Extent \<Rightarrow> Extent \<Rightarrow> bool" where
  "ExtentsOverlap a b =
     (if start_block a = start_block b then num_blocks a \<noteq> 0
      else if start_block a = kSparseHole \<or> start_block b = kSparseHole then False
      else if start_block a < start_block b
        then start_block a + num_blocks a > start_block b
        else start_block b + num_blocks b > start_block a)"

definition UnionOverlappingExtents :: "Extent \<Rightarrow> Extent \<Rightarrow> failure + Extent" where
  "UnionOverlappingExtents first second =
     (if kSparseHole = start_block first then Inl CheckFailed
      else if kSparseHole = start_block second then Inl CheckFailed
      else
        let start = min (start_block first) (start_block second);
            end' = max (start_block first + num_blocks first)
                       (start_block second + num_blocks second)
        in Inr (ExtentForRange start (end' - start)))"

definition GetOverlapExtent :: "Extent \<Rightarrow> Extent \<Rightarrow> Extent" where
  "GetOverlapExtent extent1 extent2 =
     (if \<not> ExtentsOverlap extent1 extent2 then EmptyExtent
      else
        let start_block' = max (start_block extent1) (start_block extent2);
            end_block = min (start_block extent1 + num_blocks extent1)
                            (start_block extent2 + num_blocks extent2)
        in ExtentForRange start_block' (end_block - start_block'))"

subsection \<open>The candidate range\<close>

text \<open>
  The two loops of \<^verbatim>\<open>GetCandidateRange\<close>. An iterator never passes \<^verbatim>\<open>end()\<close>, so
  the test \<^verbatim>\<open>upper_it != extent_set_.end()\<close> is the test that the position is below
  the length.
\<close>

function walk_lower :: "ExtentSet \<Rightarrow> Extent \<Rightarrow> nat \<Rightarrow> nat" where
  "walk_lower xs extent lower_it =
     (if lower_it \<noteq> 0 \<and>
         (lower_it = length xs \<or>
          start_block (xs ! lower_it) + num_blocks (xs ! lower_it) > start_block extent)
      then walk_lower xs extent (lower_it - 1)
      else lower_it)"
  by pat_completeness auto
termination
  by (relation "measure (\<lambda>(xs, extent, lower_it). lower_it)") auto

function walk_upper :: "ExtentSet \<Rightarrow> Extent \<Rightarrow> nat \<Rightarrow> nat" where
  "walk_upper xs extent upper_it =
     (if upper_it < length xs \<and>
         start_block (xs ! upper_it) \<le> start_block extent + num_blocks extent
      then walk_upper xs extent (Suc upper_it)
      else upper_it)"
  by pat_completeness auto
termination
  by (relation "measure (\<lambda>(xs, extent, upper_it). length xs - upper_it)") auto

definition GetCandidateRange :: "ExtentSet \<Rightarrow> Extent \<Rightarrow> nat \<times> nat" where
  "GetCandidateRange xs extent =
     (walk_lower xs extent (lower_bound xs extent),
      walk_upper xs extent
        (upper_bound xs (ExtentForRange (start_block extent + num_blocks extent) 1)))"

subsection \<open>Adding an extent\<close>

text \<open>
  The loop of \<^verbatim>\<open>AddExtent\<close> over the candidate range, from position \<open>it\<close> to position
  \<open>e\<close>. Its state is \<open>(begin_del, end_del, del_blocks, extent)\<close>. A range whose end lies
  before its begin makes the iterator run into \<^verbatim>\<open>end()\<close>, which is undefined.
\<close>

function AddExtent_loop ::
  "ExtentSet \<Rightarrow> bool \<Rightarrow> nat \<Rightarrow> nat \<Rightarrow> nat \<times> nat \<times> u64 \<times> Extent \<Rightarrow>
   failure + nat \<times> nat \<times> u64 \<times> Extent" where
  "AddExtent_loop xs merge it e (begin_del, end_del, del_blocks, extent) =
     (if it = e then Inr (begin_del, end_del, del_blocks, extent)
      else if length xs \<le> it then Inl UndefinedBehaviour
      else if (if merge then ExtentsOverlapOrTouch (xs ! it) extent
               else ExtentsOverlap (xs ! it) extent)
      then (case UnionOverlappingExtents extent (xs ! it) of
              Inl f \<Rightarrow> Inl f
            | Inr extent' \<Rightarrow>
                AddExtent_loop xs merge (Suc it) e
                  (if begin_del = length xs then it else begin_del, Suc it,
                   del_blocks + num_blocks (xs ! it), extent'))
      else AddExtent_loop xs merge (Suc it) e (begin_del, end_del, del_blocks, extent))"
  by pat_completeness auto
termination
  by (relation "measure (\<lambda>(xs, merge, it, e, st). length xs - it)") auto

definition AddExtent :: "ExtentRanges \<Rightarrow> Extent \<Rightarrow> failure + ExtentRanges" where
  "AddExtent s extent =
     (if start_block extent = kSparseHole \<or> num_blocks extent = 0 then Inr s
      else
        let xs = extent_set s;
            (lower_it, upper_it) = GetCandidateRange xs extent
        in case AddExtent_loop xs (merge_touching_extents s) lower_it upper_it
                  (length xs, length xs, 0, extent) of
             Inl f \<Rightarrow> Inl f
           | Inr (begin_del, end_del, del_blocks, extent') \<Rightarrow>
               Inr (s\<lparr>extent_set := set_insert extent' (erase xs begin_del end_del),
                      blocks := blocks s - del_blocks + num_blocks extent'\<rparr>))"

definition AddBlock :: "ExtentRanges \<Rightarrow> u64 \<Rightarrow> failure + ExtentRanges" where
  "AddBlock s block = AddExtent s (ExtentForRange block 1)"

subsection \<open>Subtracting an extent\<close>

definition SubtractOverlappingExtents :: "Extent \<Rightarrow> Extent \<Rightarrow> ExtentSet" where
  "SubtractOverlappingExtents base subtractee =
     (let ret = (if start_block subtractee > start_block base
                 then set_insert (ExtentForRange (start_block base)
                        (start_block subtractee - start_block base)) []
                 else []);
          base_end = start_block base + num_blocks base;
          subtractee_end = start_block subtractee + num_blocks subtractee
      in if base_end > subtractee_end
         then set_insert (ExtentForRange subtractee_end (base_end - subtractee_end)) ret
         else ret)"

text \<open>
  The loop of \<^verbatim>\<open>SubtractExtent\<close> over the whole set, from position \<open>it\<close>. Its state is
  \<open>(begin_del, end_del, del_blocks, new_extents)\<close>.
\<close>

function SubtractExtent_loop ::
  "ExtentSet \<Rightarrow> Extent \<Rightarrow> nat \<Rightarrow> nat \<times> nat \<times> u64 \<times> ExtentSet \<Rightarrow>
   nat \<times> nat \<times> u64 \<times> ExtentSet" where
  "SubtractExtent_loop xs extent it (begin_del, end_del, del_blocks, new_extents) =
     (if length xs \<le> it then (begin_del, end_del, del_blocks, new_extents)
      else if \<not> ExtentsOverlap (xs ! it) extent
      then SubtractExtent_loop xs extent (Suc it) (begin_del, end_del, del_blocks, new_extents)
      else
        let subtraction = SubtractOverlappingExtents (xs ! it) extent
        in SubtractExtent_loop xs extent (Suc it)
             (if begin_del = length xs then it else begin_del, Suc it,
              fold (\<lambda>jt d. d - num_blocks jt) subtraction (del_blocks + num_blocks (xs ! it)),
              fold set_insert subtraction new_extents))"
  by pat_completeness auto
termination
  by (relation "measure (\<lambda>(xs, extent, it, st). length xs - it)") auto

definition SubtractExtent :: "ExtentRanges \<Rightarrow> Extent \<Rightarrow> ExtentRanges" where
  "SubtractExtent s extent =
     (if start_block extent = kSparseHole \<or> num_blocks extent = 0 then s
      else
        let xs = extent_set s;
            (begin_del, end_del, del_blocks, new_extents) =
              SubtractExtent_loop xs extent 0 (length xs, length xs, 0, [])
        in s\<lparr>extent_set := fold set_insert new_extents (erase xs begin_del end_del),
              blocks := blocks s - del_blocks\<rparr>)"

definition SubtractBlock :: "ExtentRanges \<Rightarrow> u64 \<Rightarrow> ExtentRanges" where
  "SubtractBlock s block = SubtractExtent s (ExtentForRange block 1)"

subsection \<open>The bulk variants\<close>

fun AddExtents :: "ExtentRanges \<Rightarrow> Extent list \<Rightarrow> failure + ExtentRanges" where
  "AddExtents s [] = Inr s"
| "AddExtents s (extent # extents) =
     (case AddExtent s extent of Inl f \<Rightarrow> Inl f | Inr s' \<Rightarrow> AddExtents s' extents)"

fun SubtractExtents :: "ExtentRanges \<Rightarrow> Extent list \<Rightarrow> ExtentRanges" where
  "SubtractExtents s [] = s"
| "SubtractExtents s (extent # extents) = SubtractExtents (SubtractExtent s extent) extents"

definition AddRanges :: "ExtentRanges \<Rightarrow> ExtentRanges \<Rightarrow> failure + ExtentRanges" where
  "AddRanges s ranges = AddExtents s (extent_set ranges)"

definition SubtractRanges :: "ExtentRanges \<Rightarrow> ExtentRanges \<Rightarrow> ExtentRanges" where
  "SubtractRanges s ranges = SubtractExtents s (extent_set ranges)"

definition AddRepeatedExtents :: "ExtentRanges \<Rightarrow> Extent list \<Rightarrow> failure + ExtentRanges" where
  "AddRepeatedExtents s exts = AddExtents s exts"

definition SubtractRepeatedExtents :: "ExtentRanges \<Rightarrow> Extent list \<Rightarrow> ExtentRanges" where
  "SubtractRepeatedExtents s exts = SubtractExtents s exts"

subsection \<open>Queries\<close>

function ContainsBlock_loop :: "ExtentSet \<Rightarrow> u64 \<Rightarrow> nat \<Rightarrow> nat \<Rightarrow> failure + bool" where
  "ContainsBlock_loop xs block iter upper =
     (if iter = upper then Inr False
      else if length xs \<le> iter then Inl UndefinedBehaviour
      else if start_block (xs ! iter) \<le> block \<and>
              block < start_block (xs ! iter) + num_blocks (xs ! iter)
      then Inr True
      else ContainsBlock_loop xs block (Suc iter) upper)"
  by pat_completeness auto
termination
  by (relation "measure (\<lambda>(xs, block, iter, upper). length xs - iter)") auto

definition ContainsBlock :: "ExtentRanges \<Rightarrow> u64 \<Rightarrow> failure + bool" where
  "ContainsBlock s block =
     (let xs = extent_set s;
          lower = lower_bound xs (ExtentForRange block 1);
          lower' = (if lower \<noteq> 0 then lower - 1 else lower);
          upper = lower_bound xs (ExtentForRange (block + 1) 0)
      in ContainsBlock_loop xs block lower' upper)"

text \<open>
  Modelled from the spec: \<^verbatim>\<open>utils::BlocksInExtents\<close> of \<^verbatim>\<open>common/utils.h\<close>, which
  is not part of the sources at hand: the sum of \<^verbatim>\<open>num_blocks\<close> over a sequence of
  extents, in \<^verbatim>\<open>uint64_t\<close>.
\<close>
definition BlocksInExtents :: "Extent list \<Rightarrow> u64" where
  "BlocksInExtents extents = fold (\<lambda>extent sum. sum + num_blocks extent) extents 0"

text \<open>
  The loop of \<^verbatim>\<open>GetExtentsForBlockCount\<close> over the entries that are left, with the
  state \<open>(out, out_blocks)\<close>; the two \<^verbatim>\<open>break\<close>s return it.
\<close>
fun GetExtentsForBlockCount_loop ::
  "u64 \<Rightarrow> ExtentSet \<Rightarrow> Extent list \<times> u64 \<Rightarrow> Extent list \<times> u64" where
  "GetExtentsForBlockCount_loop count [] (out, out_blocks) = (out, out_blocks)"
| "GetExtentsForBlockCount_loop count (extent # rest) (out, out_blocks) =
     (let blocks_needed = count - out_blocks;
          out' = out @ [extent];
          out_blocks' = out_blocks + num_blocks extent
      in if num_blocks extent < blocks_needed
         then GetExtentsForBlockCount_loop count rest (out', out_blocks')
         else if num_blocks extent = blocks_needed then (out', out_blocks')
         else (out @ [extent\<lparr>num_blocks := blocks_needed\<rparr>],
               out_blocks' - num_blocks extent + blocks_needed))"

definition GetExtentsForBlockCount :: "ExtentRanges \<Rightarrow> u64 \<Rightarrow> failure + Extent list" where
  "GetExtentsForBlockCount s count =
     (if count = 0 then Inr []
      else if \<not> count \<le> blocks s then Inl CheckFailed
      else
        let (out, out_blocks) = GetExtentsForBlockCount_loop count (extent_set s) ([], 0)
        in if out_blocks = BlocksInExtents out then Inr out else Inl CheckFailed)"

subsection \<open>Filtering a sequence of extents\<close>

text \<open>
  The inner loop of \<^verbatim>\<open>FilterExtentRanges\<close>, from position \<open>iter\<close> to position \<open>upper\<close>
  of the set, with the state \<open>(result, extent)\<close>; a \<^verbatim>\<open>break\<close> returns it.
\<close>
function FilterExtentRanges_loop ::
  "ExtentSet \<Rightarrow> nat \<Rightarrow> nat \<Rightarrow> Extent list \<times> Extent \<Rightarrow> failure + Extent list \<times> Extent" where
  "FilterExtentRanges_loop xs iter upper (result, extent) =
     (if iter = upper then Inr (result, extent)
      else if length xs \<le> iter then Inl UndefinedBehaviour
      else if \<not> ExtentsOverlap extent (xs ! iter)
      then FilterExtentRanges_loop xs (Suc iter) upper (result, extent)
      else if start_block (xs ! iter) \<le> start_block extent
      then
        let cut_blocks =
              start_block (xs ! iter) + num_blocks (xs ! iter) - start_block extent
        in if cut_blocks \<ge> num_blocks extent
           then Inr (result, extent\<lparr>num_blocks := 0\<rparr>)
           else FilterExtentRanges_loop xs (Suc iter) upper
                  (result, ExtentForRange (start_block extent + cut_blocks)
                             (num_blocks extent - cut_blocks))
      else
        let result' = result @
              [ExtentForRange (start_block extent)
                 (start_block (xs ! iter) - start_block extent)];
            new_start = start_block (xs ! iter) + num_blocks (xs ! iter);
            old_end = start_block extent + num_blocks extent
        in if new_start \<ge> old_end
           then Inr (result', extent\<lparr>num_blocks := 0\<rparr>)
           else FilterExtentRanges_loop xs (Suc iter) upper
                  (result', ExtentForRange new_start (old_end - new_start)))"
  by pat_completeness auto
termination
  by (relation "measure (\<lambda>(xs, iter, upper, st). length xs - iter)") auto

fun FilterExtentRanges_from ::
  "ExtentSet \<Rightarrow> Extent list \<Rightarrow> Extent list \<Rightarrow> failure + Extent list" where
  "FilterExtentRanges_from extent_set' [] result = Inr result"
| "FilterExtentRanges_from extent_set' (extent # extents) result =
     (let lower = lower_bound extent_set' extent;
          lower' = (if lower \<noteq> 0 then lower - 1 else lower);
          upper = lower_bound extent_set'
                    (ExtentForRange (start_block extent + num_blocks extent) 0)
      in case FilterExtentRanges_loop extent_set' lower' upper (result, extent) of
           Inl f \<Rightarrow> Inl f
         | Inr (result', extent') \<Rightarrow>
             FilterExtentRanges_from extent_set' extents
               (if num_blocks extent' > 0 then result' @ [extent'] else result'))"

definition FilterExtentRanges :: "Extent list \<Rightarrow> ExtentRanges \<Rightarrow> failure + Extent list" where
  "FilterExtentRanges extents ranges = FilterExtentRanges_from (extent_set ranges) extents []"

subsection \<open>What an extent denotes\<close>

text \<open>
  An extent denotes the half-open interval of block indices from \<open>lo\<close> to \<open>hi\<close>, taken
  in the natural numbers, so that an extent whose end passes \<open>2 ^ 64\<close> is told apart from
  the wrapped value the C++ computes.
\<close>

definition lo :: "Extent \<Rightarrow> nat" where
  "lo e = unat (start_block e)"

definition hi :: "Extent \<Rightarrow> nat" where
  "hi e = unat (start_block e) + unat (num_blocks e)"

definition extent_blocks :: "Extent \<Rightarrow> nat set" where
  "extent_blocks e = {lo e ..< hi e}"

text \<open>An extent is bounded when it ends at or before the sentinel block: nothing wraps.\<close>
definition bounded :: "Extent \<Rightarrow> bool" where
  "bounded e = (hi e \<le> unat kSparseHole)"

definition proper :: "Extent \<Rightarrow> bool" where
  "proper e = (num_blocks e \<noteq> 0 \<and> bounded e)"

text \<open>The extents that the spec calls semantically empty.\<close>
definition degenerate :: "Extent \<Rightarrow> bool" where
  "degenerate e = (start_block e = kSparseHole \<or> num_blocks e = 0)"

text \<open>One extent ends exactly where the other begins.\<close>
definition touching :: "Extent \<Rightarrow> Extent \<Rightarrow> bool" where
  "touching a b = (hi a = lo b \<or> hi b = lo a)"

subsection \<open>Sequences of calls\<close>

text \<open>
  A set is built from the empty one by calls of \<^verbatim>\<open>AddExtent\<close> and \<^verbatim>\<open>SubtractExtent\<close>;
  a failure of one call ends the run.
\<close>

datatype call = Add Extent | Subtract Extent

fun call_extent :: "call \<Rightarrow> Extent" where
  "call_extent (Add e) = e"
| "call_extent (Subtract e) = e"

fun apply_calls :: "ExtentRanges \<Rightarrow> call list \<Rightarrow> failure + ExtentRanges" where
  "apply_calls s [] = Inr s"
| "apply_calls s (Add e # calls) =
     (case AddExtent s e of Inl f \<Rightarrow> Inl f | Inr s' \<Rightarrow> apply_calls s' calls)"
| "apply_calls s (Subtract e # calls) = apply_calls (SubtractExtent s e) calls"

text \<open>
  The extents whose end does not wrap, and the sparse holes, which both calls ignore.
\<close>
definition admissible :: "Extent \<Rightarrow> bool" where
  "admissible e = (bounded e \<or> start_block e = kSparseHole)"

subsection \<open>The invariants of a set\<close>

definition total_blocks :: "Extent list \<Rightarrow> nat" where
  "total_blocks xs = sum_list (map (\<lambda>e. unat (num_blocks e)) xs)"

definition covered :: "Extent list \<Rightarrow> nat set" where
  "covered xs = (\<Union>e\<in>set xs. extent_blocks e)"

text \<open>
  The three invariants of the data model: no stored extent is a sparse hole or empty; the
  entries ascend by start block, no two share a block and, in merge mode, no two touch;
  the counter is the sum of the lengths.
\<close>
definition invariant :: "ExtentRanges \<Rightarrow> bool" where
  "invariant s =
     ((\<forall>e\<in>set (extent_set s). start_block e \<noteq> kSparseHole \<and> num_blocks e \<noteq> 0) \<and>
      sorted_wrt (\<lambda>a b. lo a < lo b \<and> extent_blocks a \<inter> extent_blocks b = {} \<and>
                   (merge_touching_extents s \<longrightarrow> \<not> touching a b)) (extent_set s) \<and>
      unat (blocks s) = total_blocks (extent_set s))"

text \<open>
  The same invariants in the form the proofs use: every entry is non-empty and ends at or
  before the sentinel, and each entry ends before (in merge mode: strictly before) the
  next one begins.
\<close>
definition gap :: "bool \<Rightarrow> Extent \<Rightarrow> Extent \<Rightarrow> bool" where
  "gap merge a b = (if merge then hi a < lo b else hi a \<le> lo b)"

definition well_formed :: "bool \<Rightarrow> ExtentSet \<Rightarrow> bool" where
  "well_formed merge xs = ((\<forall>e\<in>set xs. proper e) \<and> sorted_wrt (gap merge) xs)"

definition ranges_ok :: "ExtentRanges \<Rightarrow> bool" where
  "ranges_ok s =
     (well_formed (merge_touching_extents s) (extent_set s) \<and>
      unat (blocks s) = total_blocks (extent_set s))"

subsection \<open>Auxiliary notions of the proofs\<close>

text \<open>The extent that \<open>UnionOverlappingExtents\<close> returns when both checks pass.\<close>
definition extent_union :: "Extent \<Rightarrow> Extent \<Rightarrow> Extent" where
  "extent_union first second =
     ExtentForRange (min (start_block first) (start_block second))
       (max (start_block first + num_blocks first) (start_block second + num_blocks second) -
        min (start_block first) (start_block second))"

text \<open>The unions that the loop of \<open>AddExtent\<close> takes over a run of entries.\<close>
definition hull :: "Extent \<Rightarrow> Extent list \<Rightarrow> Extent" where
  "hull e ms = fold (\<lambda>x ext. extent_union ext x) ms e"

text \<open>The test of the loop of \<open>AddExtent\<close>.\<close>
definition should_merge :: "bool \<Rightarrow> Extent \<Rightarrow> Extent \<Rightarrow> bool" where
  "should_merge merge x ext =
     (if merge then ExtentsOverlapOrTouch x ext else ExtentsOverlap x ext)"

abbreviation (input) pieces :: "Extent \<Rightarrow> Extent \<Rightarrow> Extent list" where
  "pieces e x \<equiv> SubtractOverlappingExtents x e"

section \<open>Properties of the relations between two extents\<close>

lemma unat_hole: "unat kSparseHole = 2 ^ 64 - 1"
  by (simp add: kSparseHole_def)

lemma end_unat: "bounded e \<Longrightarrow> unat (start_block e + num_blocks e) = hi e"
  by (simp add: bounded_def hi_def unat_hole unat_add_lem [THEN iffD1])

lemma lo_le_hi: "lo e \<le> hi e"
  by (simp add: lo_def hi_def)

lemma proper_lt: "proper e \<Longrightarrow> lo e < hi e"
  by (simp add: proper_def lo_def hi_def unat_gt_0)

lemma proper_bounded: "proper e \<Longrightarrow> bounded e"
  by (simp add: proper_def)

lemma proper_hi: "proper e \<Longrightarrow> hi e < 2 ^ 64"
  by (simp add: proper_def bounded_def unat_hole)

lemma start_eq_iff: "start_block a = start_block b \<longleftrightarrow> lo a = lo b"
  by (simp add: lo_def word_unat_eq_iff)

lemma hole_iff: "start_block a = kSparseHole \<longleftrightarrow> lo a = 2 ^ 64 - 1"
  by (simp add: lo_def word_unat_eq_iff unat_hole)

lemma proper_start: "proper e \<Longrightarrow> start_block e \<noteq> kSparseHole"
  using proper_lt [of e] proper_hi [of e] by (simp add: hole_iff)

lemma start_less_iff: "start_block a < start_block b \<longleftrightarrow> lo a < lo b"
  by (simp add: lo_def word_less_nat_alt)

lemma start_le_iff: "start_block a \<le> start_block b \<longleftrightarrow> lo a \<le> lo b"
  by (simp add: lo_def word_le_nat_alt)

lemma proper_iff: "proper e \<longleftrightarrow> lo e < hi e \<and> hi e < 2 ^ 64"
  by (auto simp: proper_def bounded_def unat_hole lo_def hi_def unat_gt_0)

lemma overlap_proper:
  assumes "proper a" "proper b"
  shows "ExtentsOverlap a b \<longleftrightarrow> lo a < hi b \<and> lo b < hi a"
proof -
  note f = proper_start [OF assms(1)] proper_start [OF assms(2)]
    proper_lt [OF assms(1)] proper_lt [OF assms(2)]
    end_unat [OF proper_bounded [OF assms(1)]] end_unat [OF proper_bounded [OF assms(2)]]
  have "num_blocks a \<noteq> 0" using assms(1) by (simp add: proper_def)
  with f show ?thesis
    unfolding ExtentsOverlap_def
    by (auto simp: word_less_nat_alt start_eq_iff start_less_iff lo_def [symmetric])
qed

lemma overlap_or_touch_proper:
  assumes "proper a" "proper b"
  shows "ExtentsOverlapOrTouch a b \<longleftrightarrow> lo a \<le> hi b \<and> lo b \<le> hi a"
proof -
  note f = proper_start [OF assms(1)] proper_start [OF assms(2)]
    proper_lt [OF assms(1)] proper_lt [OF assms(2)]
    end_unat [OF proper_bounded [OF assms(1)]] end_unat [OF proper_bounded [OF assms(2)]]
  from f show ?thesis
    unfolding ExtentsOverlapOrTouch_def
    by (auto simp: word_le_nat_alt start_eq_iff start_less_iff lo_def [symmetric])
qed

lemma blocks_meet_iff:
  "extent_blocks a \<inter> extent_blocks b \<noteq> {} \<longleftrightarrow>
     lo a < hi b \<and> lo b < hi a \<and> lo a < hi a \<and> lo b < hi b"
  unfolding extent_blocks_def by (auto simp: not_less)

text \<open>
  Claim C5, as the code has it. For two non-empty extents that end at or before the
  sentinel, \<open>ExtentsOverlap\<close> holds exactly when the two intervals share a block; and when
  the two start blocks differ and one of them is the sentinel, the result is false.
\<close>
theorem ExtentsOverlap_proper_iff_blocks_meet:
  "(proper a \<and> proper b \<longrightarrow>
      (ExtentsOverlap a b \<longleftrightarrow> extent_blocks a \<inter> extent_blocks b \<noteq> {})) \<and>
   ((start_block a = kSparseHole \<or> start_block b = kSparseHole) \<and>
      start_block a \<noteq> start_block b \<longrightarrow> \<not> ExtentsOverlap a b)"
proof (intro conjI impI)
  assume p: "proper a \<and> proper b"
  then show "ExtentsOverlap a b \<longleftrightarrow> extent_blocks a \<inter> extent_blocks b \<noteq> {}"
    using proper_lt [of a] proper_lt [of b]
    by (simp add: overlap_proper blocks_meet_iff)
next
  assume "(start_block a = kSparseHole \<or> start_block b = kSparseHole) \<and>
      start_block a \<noteq> start_block b"
  then show "\<not> ExtentsOverlap a b"
    by (simp add: ExtentsOverlap_def)
qed

theorem ExtentsOverlap_proper_iff_blocks_meet_witness:
  "proper \<lparr>start_block = 0, num_blocks = 10\<rparr> \<and>
   proper \<lparr>start_block = 5, num_blocks = 3\<rparr> \<and>
   ExtentsOverlap \<lparr>start_block = 0, num_blocks = 10\<rparr> \<lparr>start_block = 5, num_blocks = 3\<rparr> \<and>
   extent_blocks \<lparr>start_block = 0, num_blocks = 10\<rparr> \<inter>
     extent_blocks \<lparr>start_block = 5, num_blocks = 3\<rparr> \<noteq> {} \<and>
   \<not> ExtentsOverlap \<lparr>start_block = kSparseHole, num_blocks = 1\<rparr>
       \<lparr>start_block = 5, num_blocks = 3\<rparr>"
proof -
  let ?a = "\<lparr>start_block = 0, num_blocks = 10\<rparr>"
  let ?b = "\<lparr>start_block = 5, num_blocks = 3\<rparr>"
  let ?h = "\<lparr>start_block = kSparseHole, num_blocks = 1\<rparr>"
  have p: "proper ?a \<and> proper ?b"
    by (simp add: proper_def bounded_def hi_def unat_hole)
  have o: "ExtentsOverlap ?a ?b"
    by (simp add: ExtentsOverlap_def kSparseHole_def)
  have h: "(start_block ?h = kSparseHole \<or> start_block ?b = kSparseHole) \<and>
      start_block ?h \<noteq> start_block ?b"
    by (simp add: kSparseHole_def)
  from ExtentsOverlap_proper_iff_blocks_meet [of ?a ?b] p o
  have "extent_blocks ?a \<inter> extent_blocks ?b \<noteq> {}" by blast
  moreover from ExtentsOverlap_proper_iff_blocks_meet [of ?h ?b] h
  have "\<not> ExtentsOverlap ?h ?b" by blast
  ultimately show ?thesis using p o by blast
qed

text \<open>
  Claim C5 as it is written fails: an extent overlaps an empty extent with the same
  start, which shares no block with it, and two sparse holes overlap each other. And an
  extent whose end wraps around does not overlap the extent \<open>{20, 1}\<close> within it.
\<close>
theorem ExtentsOverlap_counterexample:
  "ExtentsOverlap \<lparr>start_block = 5, num_blocks = 3\<rparr> \<lparr>start_block = 5, num_blocks = 0\<rparr> \<and>
   extent_blocks \<lparr>start_block = 5, num_blocks = 3\<rparr> \<inter>
     extent_blocks \<lparr>start_block = 5, num_blocks = 0\<rparr> = {} \<and>
   start_block \<lparr>start_block = kSparseHole, num_blocks = 1\<rparr> = kSparseHole \<and>
   ExtentsOverlap \<lparr>start_block = kSparseHole, num_blocks = 1\<rparr>
     \<lparr>start_block = kSparseHole, num_blocks = 1\<rparr> \<and>
   \<not> ExtentsOverlap \<lparr>start_block = 10, num_blocks = 0xFFFFFFFFFFFFFFFB\<rparr>
     \<lparr>start_block = 20, num_blocks = 1\<rparr> \<and>
   20 \<in> extent_blocks \<lparr>start_block = 10, num_blocks = 0xFFFFFFFFFFFFFFFB\<rparr> \<inter>
     extent_blocks \<lparr>start_block = 20, num_blocks = 1\<rparr>"
  by (simp add: ExtentsOverlap_def extent_blocks_def lo_def hi_def kSparseHole_def)

lemma end_eq_start:
  assumes "start_block a + num_blocks a = start_block b" "start_block a < start_block b"
  shows "hi a = lo b"
proof -
  have "num_blocks a = start_block b - start_block a"
    using assms(1) by (simp add: algebra_simps)
  moreover have "start_block a \<le> start_block b" using assms(2) by simp
  ultimately have "unat (num_blocks a) = unat (start_block b) - unat (start_block a)"
    by (simp add: unat_sub)
  with assms(2) show ?thesis by (simp add: hi_def lo_def word_less_nat_alt)
qed

lemma hi_eq_lo_end:
  assumes "hi a = lo b"
  shows "start_block a + num_blocks a = start_block b"
proof -
  have "lo b < 2 ^ 64" unfolding lo_def using unsigned_less [of "start_block b"] by simp
  with assms have "bounded a" by (simp add: bounded_def unat_hole)
  then have "unat (start_block a + num_blocks a) = unat (start_block b)"
    using assms by (simp add: end_unat lo_def)
  then show ?thesis by (simp add: word_unat_eq_iff)
qed

text \<open>
  Claim C6, as the code has it. The two relations agree on every pair of extents of
  which neither ends exactly where the other begins. Where one does,
  \<open>ExtentsOverlapOrTouch\<close> is true, unless the two start blocks differ and one of them is
  the sentinel: then it is false.
\<close>
theorem ExtentsOverlapOrTouch_agrees_unless_touching:
  "(\<not> touching a b \<longrightarrow> ExtentsOverlapOrTouch a b = ExtentsOverlap a b) \<and>
   (touching a b \<longrightarrow>
      (ExtentsOverlapOrTouch a b \<longleftrightarrow>
         start_block a = start_block b \<or>
         (start_block a \<noteq> kSparseHole \<and> start_block b \<noteq> kSparseHole)))"
proof (intro conjI impI)
  assume nt: "\<not> touching a b"
  show "ExtentsOverlapOrTouch a b = ExtentsOverlap a b"
  proof (cases "start_block a = start_block b")
    case True
    with nt have "num_blocks a \<noteq> 0"
      by (auto simp: touching_def hi_def lo_def)
    with True show ?thesis by (simp add: ExtentsOverlapOrTouch_def ExtentsOverlap_def)
  next
    case False
    have 1: "start_block a < start_block b \<Longrightarrow> start_block a + num_blocks a \<noteq> start_block b"
      using nt end_eq_start [of a b] by (auto simp: touching_def)
    have 2: "start_block b < start_block a \<Longrightarrow> start_block b + num_blocks b \<noteq> start_block a"
      using nt end_eq_start [of b a] by (auto simp: touching_def)
    from False 1 2 show ?thesis
      unfolding ExtentsOverlapOrTouch_def ExtentsOverlap_def
      by (auto simp: order_le_less not_less)
  qed
next
  assume t: "touching a b"
  show "ExtentsOverlapOrTouch a b \<longleftrightarrow>
         start_block a = start_block b \<or>
         (start_block a \<noteq> kSparseHole \<and> start_block b \<noteq> kSparseHole)"
  proof (cases "start_block a = start_block b")
    case True
    then show ?thesis by (simp add: ExtentsOverlapOrTouch_def)
  next
    case False
    have 1: "start_block a < start_block b \<Longrightarrow> start_block a + num_blocks a = start_block b"
      using t hi_eq_lo_end [of a b] lo_le_hi [of b]
      by (auto simp: touching_def start_less_iff)
    have 2: "\<not> start_block a < start_block b \<Longrightarrow> start_block b + num_blocks b = start_block a"
      using t hi_eq_lo_end [of b a] lo_le_hi [of a] False
      by (auto simp: touching_def start_less_iff start_eq_iff)
    from False 1 2 show ?thesis
      unfolding ExtentsOverlapOrTouch_def by auto
  qed
qed

theorem ExtentsOverlapOrTouch_agrees_unless_touching_witness:
  "\<not> touching \<lparr>start_block = 0, num_blocks = 10\<rparr> \<lparr>start_block = 5, num_blocks = 3\<rparr> \<and>
   ExtentsOverlapOrTouch \<lparr>start_block = 0, num_blocks = 10\<rparr>
       \<lparr>start_block = 5, num_blocks = 3\<rparr> =
     ExtentsOverlap \<lparr>start_block = 0, num_blocks = 10\<rparr> \<lparr>start_block = 5, num_blocks = 3\<rparr> \<and>
   touching \<lparr>start_block = 5, num_blocks = 3\<rparr> \<lparr>start_block = 8, num_blocks = 2\<rparr> \<and>
   ExtentsOverlapOrTouch \<lparr>start_block = 5, num_blocks = 3\<rparr> \<lparr>start_block = 8, num_blocks = 2\<rparr>"
proof -
  let ?a = "\<lparr>start_block = 0, num_blocks = 10\<rparr>"
  let ?b = "\<lparr>start_block = 5, num_blocks = 3\<rparr>"
  let ?c = "\<lparr>start_block = 8, num_blocks = 2\<rparr>"
  have n: "\<not> touching ?a ?b" by (simp add: touching_def hi_def lo_def)
  have t: "touching ?b ?c" by (simp add: touching_def hi_def lo_def)
  have s: "start_block ?b \<noteq> kSparseHole \<and> start_block ?c \<noteq> kSparseHole"
    by (simp add: kSparseHole_def)
  from ExtentsOverlapOrTouch_agrees_unless_touching [of ?a ?b] n
  have "ExtentsOverlapOrTouch ?a ?b = ExtentsOverlap ?a ?b" by blast
  moreover from ExtentsOverlapOrTouch_agrees_unless_touching [of ?b ?c] t s
  have "ExtentsOverlapOrTouch ?b ?c" by blast
  ultimately show ?thesis using n t by blast
qed

text \<open>
  Claim C6 as it is written fails: the first extent ends at the sentinel block, where
  the second, a sparse hole, begins, and \<open>ExtentsOverlapOrTouch\<close> is false.
\<close>
theorem ExtentsOverlapOrTouch_counterexample:
  "touching \<lparr>start_block = 0xFFFFFFFFFFFFFFFE, num_blocks = 1\<rparr>
            \<lparr>start_block = kSparseHole, num_blocks = 1\<rparr> \<and>
   \<not> ExtentsOverlapOrTouch \<lparr>start_block = 0xFFFFFFFFFFFFFFFE, num_blocks = 1\<rparr>
            \<lparr>start_block = kSparseHole, num_blocks = 1\<rparr>"
  by (simp add: touching_def hi_def lo_def ExtentsOverlapOrTouch_def kSparseHole_def)

lemma unat_max: "unat (max x y) = max (unat x) (unat y)" for x y :: u64
  by (simp add: max_def word_le_nat_alt)

lemma unat_min: "unat (min x y) = min (unat x) (unat y)" for x y :: u64
  by (simp add: min_def word_le_nat_alt)

lemma lo_ForRange [simp]: "lo (ExtentForRange s n) = unat s"
  by (simp add: lo_def ExtentForRange_def)

lemma hi_ForRange [simp]: "hi (ExtentForRange s n) = unat s + unat n"
  by (simp add: hi_def ExtentForRange_def)

lemma overlap_bounded_imp:
  assumes "bounded a" "bounded b" "ExtentsOverlap a b"
  shows "max (lo a) (lo b) \<le> min (hi a) (hi b)"
  using assms(3) lo_le_hi [of a] lo_le_hi [of b]
  unfolding ExtentsOverlap_def
  by (auto simp: word_less_nat_alt end_unat [OF assms(1)] end_unat [OF assms(2)]
      start_eq_iff lo_def [symmetric] split: if_splits)

lemma blocks_GetOverlapExtent:
  assumes "bounded a" "bounded b"
  shows "extent_blocks (GetOverlapExtent a b) = extent_blocks a \<inter> extent_blocks b"
proof (cases "ExtentsOverlap a b")
  case True
  let ?s = "max (start_block a) (start_block b)"
  let ?e = "min (start_block a + num_blocks a) (start_block b + num_blocks b)"
  have s: "unat ?s = max (lo a) (lo b)" by (simp add: unat_max lo_def)
  have e: "unat ?e = min (hi a) (hi b)"
    by (simp add: unat_min end_unat assms)
  have le: "max (lo a) (lo b) \<le> min (hi a) (hi b)"
    by (rule overlap_bounded_imp [OF assms True])
  then have "?s \<le> ?e" by (simp only: word_le_nat_alt s e)
  then have "unat (?e - ?s) = min (hi a) (hi b) - max (lo a) (lo b)"
    by (simp only: unat_sub s e)
  with le s True show ?thesis
    by (simp add: GetOverlapExtent_def extent_blocks_def Let_def)
next
  case False
  have "extent_blocks a \<inter> extent_blocks b = {}"
  proof (rule ccontr)
    assume ne: "extent_blocks a \<inter> extent_blocks b \<noteq> {}"
    then have "lo a < hi a" "lo b < hi b" by (simp_all add: blocks_meet_iff)
    then have "proper a" "proper b"
      using assms by (auto simp: proper_def lo_def hi_def)
    with ne False show False by (simp add: overlap_proper blocks_meet_iff)
  qed
  with False show ?thesis
    by (simp add: GetOverlapExtent_def EmptyExtent_def extent_blocks_def lo_def hi_def)
qed

lemma blocks_empty_num: "extent_blocks e = {} \<Longrightarrow> num_blocks e = 0"
  by (simp add: extent_blocks_def lo_def hi_def unat_eq_0)

text \<open>
  Claim C9, as the code has it. For two extents that end at or before the sentinel,
  \<open>GetOverlapExtent\<close> gives the same extent in both argument orders, the exact common
  sub-interval, when the intervals share a block, and a semantically empty extent in
  both orders when they do not.
\<close>
theorem GetOverlapExtent_symmetric_bounded:
  "bounded a \<and> bounded b \<longrightarrow>
   (extent_blocks a \<inter> extent_blocks b \<noteq> {} \<longrightarrow>
      GetOverlapExtent a b = GetOverlapExtent b a \<and>
      extent_blocks (GetOverlapExtent a b) = extent_blocks a \<inter> extent_blocks b) \<and>
   (extent_blocks a \<inter> extent_blocks b = {} \<longrightarrow>
      degenerate (GetOverlapExtent a b) \<and> degenerate (GetOverlapExtent b a))"
proof (intro impI conjI)
  assume b: "bounded a \<and> bounded b"
  then show "extent_blocks (GetOverlapExtent a b) = extent_blocks a \<inter> extent_blocks b"
    by (simp add: blocks_GetOverlapExtent)
  {
    assume ne: "extent_blocks a \<inter> extent_blocks b \<noteq> {}"
    then have "lo a < hi a" "lo b < hi b" by (simp_all add: blocks_meet_iff)
    then have p: "proper a" "proper b"
      using b by (auto simp: proper_def lo_def hi_def)
    with ne have "ExtentsOverlap a b" "ExtentsOverlap b a"
      by (auto simp: overlap_proper blocks_meet_iff)
    then show "GetOverlapExtent a b = GetOverlapExtent b a"
      by (simp add: GetOverlapExtent_def max.commute min.commute)
  }
  {
    assume e: "extent_blocks a \<inter> extent_blocks b = {}"
    then have "extent_blocks (GetOverlapExtent a b) = {}"
      "extent_blocks (GetOverlapExtent b a) = {}"
      using b by (simp_all add: blocks_GetOverlapExtent Int_commute)
    then show "degenerate (GetOverlapExtent a b)" "degenerate (GetOverlapExtent b a)"
      by (simp_all add: degenerate_def blocks_empty_num)
  }
qed

theorem GetOverlapExtent_symmetric_bounded_witness:
  "bounded \<lparr>start_block = 0, num_blocks = 10\<rparr> \<and> bounded \<lparr>start_block = 5, num_blocks = 8\<rparr> \<and>
   bounded \<lparr>start_block = 20, num_blocks = 1\<rparr> \<and>
   GetOverlapExtent \<lparr>start_block = 0, num_blocks = 10\<rparr> \<lparr>start_block = 5, num_blocks = 8\<rparr> =
     GetOverlapExtent \<lparr>start_block = 5, num_blocks = 8\<rparr> \<lparr>start_block = 0, num_blocks = 10\<rparr> \<and>
   extent_blocks
     (GetOverlapExtent \<lparr>start_block = 0, num_blocks = 10\<rparr> \<lparr>start_block = 5, num_blocks = 8\<rparr>) =
     {5 ..< 10} \<and>
   degenerate
     (GetOverlapExtent \<lparr>start_block = 0, num_blocks = 10\<rparr> \<lparr>start_block = 20, num_blocks = 1\<rparr>)"
proof -
  let ?a = "\<lparr>start_block = 0, num_blocks = 10\<rparr>"
  let ?b = "\<lparr>start_block = 5, num_blocks = 8\<rparr>"
  let ?c = "\<lparr>start_block = 20, num_blocks = 1\<rparr>"
  have bd: "bounded ?a" "bounded ?b" "bounded ?c"
    by (simp_all add: bounded_def hi_def unat_hole)
  have i: "extent_blocks ?a \<inter> extent_blocks ?b = {5 ..< 10}"
    by (simp add: extent_blocks_def lo_def hi_def)
  have ne: "extent_blocks ?a \<inter> extent_blocks ?b \<noteq> {}"
    unfolding i by simp
  have e: "extent_blocks ?a \<inter> extent_blocks ?c = {}"
    by (simp add: extent_blocks_def lo_def hi_def)
  from GetOverlapExtent_symmetric_bounded [of ?a ?b] bd ne
  have "GetOverlapExtent ?a ?b = GetOverlapExtent ?b ?a \<and>
      extent_blocks (GetOverlapExtent ?a ?b) = extent_blocks ?a \<inter> extent_blocks ?b"
    by blast
  moreover from GetOverlapExtent_symmetric_bounded [of ?a ?c] bd e
  have "degenerate (GetOverlapExtent ?a ?c)" by blast
  ultimately show ?thesis using bd unfolding i by blast
qed

text \<open>
  Claim C9 as it is written fails where an end wraps around: the two intervals share
  block 2 only, and the result is the whole second extent.
\<close>
theorem GetOverlapExtent_counterexample:
  "extent_blocks \<lparr>start_block = 0, num_blocks = 3\<rparr> \<inter>
     extent_blocks \<lparr>start_block = 2, num_blocks = 0xFFFFFFFFFFFFFFFF\<rparr> = {2} \<and>
   GetOverlapExtent \<lparr>start_block = 0, num_blocks = 3\<rparr>
     \<lparr>start_block = 2, num_blocks = 0xFFFFFFFFFFFFFFFF\<rparr> =
     \<lparr>start_block = 2, num_blocks = 0xFFFFFFFFFFFFFFFF\<rparr> \<and>
   extent_blocks (GetOverlapExtent \<lparr>start_block = 0, num_blocks = 3\<rparr>
     \<lparr>start_block = 2, num_blocks = 0xFFFFFFFFFFFFFFFF\<rparr>) \<noteq> {2}"
proof -
  have g: "GetOverlapExtent \<lparr>start_block = 0, num_blocks = 3\<rparr>
     \<lparr>start_block = 2, num_blocks = 0xFFFFFFFFFFFFFFFF\<rparr> =
     \<lparr>start_block = 2, num_blocks = 0xFFFFFFFFFFFFFFFF\<rparr>"
    by (simp add: GetOverlapExtent_def ExtentsOverlap_def kSparseHole_def ExtentForRange_def)
  have i: "extent_blocks \<lparr>start_block = 0, num_blocks = 3\<rparr> \<inter>
     extent_blocks \<lparr>start_block = 2, num_blocks = 0xFFFFFFFFFFFFFFFF\<rparr> = {2}"
    by (auto simp: extent_blocks_def lo_def hi_def)
  have "(3::nat) \<in> extent_blocks \<lparr>start_block = 2, num_blocks = 0xFFFFFFFFFFFFFFFF\<rparr>"
    by (simp add: extent_blocks_def lo_def hi_def)
  then have "extent_blocks \<lparr>start_block = 2, num_blocks = 0xFFFFFFFFFFFFFFFF\<rparr> \<noteq> {2}"
    by auto
  with g i show ?thesis by simp
qed

section \<open>Sets of extents\<close>

subsection \<open>Basic facts\<close>

lemma total_blocks_simps [simp]:
  "total_blocks [] = 0"
  "total_blocks (x # xs) = unat (num_blocks x) + total_blocks xs"
  "total_blocks (xs @ ys) = total_blocks xs + total_blocks ys"
  by (simp_all add: total_blocks_def)

lemma covered_simps [simp]:
  "covered [] = {}"
  "covered (x # xs) = extent_blocks x \<union> covered xs"
  "covered (xs @ ys) = covered xs \<union> covered ys"
  by (auto simp: covered_def)

lemma gap_weaken: "gap m a b \<Longrightarrow> hi a \<le> lo b"
  by (simp add: gap_def split: if_splits)

lemma gap_False [simp]: "gap False a b \<longleftrightarrow> hi a \<le> lo b"
  by (simp add: gap_def)

lemma gap_True [simp]: "gap True a b \<longleftrightarrow> hi a < lo b"
  by (simp add: gap_def)

lemma sorted_gap_weaken: "sorted_wrt (gap m) xs \<Longrightarrow> sorted_wrt (gap False) xs"
  by (rule sorted_wrt_mono_rel [of xs "gap m"]) (auto dest: gap_weaken)

lemma well_formed_weaken: "well_formed m xs \<Longrightarrow> well_formed False xs"
  unfolding well_formed_def by (blast intro: sorted_gap_weaken)

lemma well_formed_Nil [simp]: "well_formed m []"
  by (simp add: well_formed_def)

lemma well_formed_Cons:
  "well_formed m (x # xs) \<longleftrightarrow> proper x \<and> (\<forall>y\<in>set xs. gap m x y) \<and> well_formed m xs"
  by (auto simp: well_formed_def)

lemma well_formed_append:
  "well_formed m (xs @ ys) \<longleftrightarrow>
     well_formed m xs \<and> well_formed m ys \<and> (\<forall>x\<in>set xs. \<forall>y\<in>set ys. gap m x y)"
  by (auto simp: well_formed_def sorted_wrt_append)

lemma ExtentLess_lo: "lo a < lo b \<Longrightarrow> ExtentLess a b"
  by (auto simp: ExtentLess_def lo_def word_less_nat_alt word_unat_eq_iff)

lemma ExtentLess_asym: "ExtentLess a b \<Longrightarrow> \<not> ExtentLess b a"
  by (auto simp: ExtentLess_def split: if_splits)

lemma ExtentLess_iff_proper:
  "ExtentLess a b \<longleftrightarrow> lo a < lo b \<or> (lo a = lo b \<and> num_blocks a < num_blocks b)"
  by (auto simp: ExtentLess_def lo_def word_less_nat_alt word_unat_eq_iff)

lemma gap_lo: "proper a \<Longrightarrow> gap m a b \<Longrightarrow> lo a < lo b"
  using proper_lt [of a] gap_weaken [of m a b] by simp

subsection \<open>Insertion into the ordered container\<close>

lemma set_insert_middle:
  assumes "\<forall>x\<in>set ls. ExtentLess x v" "\<forall>y\<in>set rs. ExtentLess v y"
  shows "set_insert v (ls @ rs) = ls @ v # rs"
  using assms
proof (induction ls)
  case Nil
  then show ?case by (cases rs) auto
next
  case (Cons a ls)
  then show ?case by (auto dest: ExtentLess_asym)
qed

lemma fold_set_insert_middle:
  assumes "sorted_wrt ExtentLess (ls @ ns @ rs)"
  shows "fold set_insert ns (ls @ rs) = ls @ ns @ rs"
  using assms
proof (induction ns arbitrary: ls)
  case Nil
  then show ?case by simp
next
  case (Cons a ns)
  have "set_insert a (ls @ rs) = ls @ a # rs"
    using Cons.prems by (intro set_insert_middle) (auto simp: sorted_wrt_append)
  moreover have "fold set_insert ns ((ls @ [a]) @ rs) = (ls @ [a]) @ ns @ rs"
    using Cons.prems by (intro Cons.IH) simp
  ultimately show ?case by simp
qed

lemma well_formed_sorted_less:
  assumes "well_formed m xs"
  shows "sorted_wrt ExtentLess xs"
proof (rule sorted_wrt_mono_rel [of xs "gap m"])
  show "sorted_wrt (gap m) xs" using assms by (simp add: well_formed_def)
  fix x y assume "x \<in> set xs" "gap m x y"
  then show "ExtentLess x y"
    using assms by (auto simp: well_formed_def intro: ExtentLess_lo gap_lo)
qed

subsection \<open>The bound on the number of blocks\<close>

lemma total_bound_aux:
  "well_formed False xs \<Longrightarrow> \<forall>x\<in>set xs. b \<le> lo x \<Longrightarrow> b \<le> 2 ^ 64 - 1 \<Longrightarrow>
   b + total_blocks xs \<le> 2 ^ 64 - 1"
proof (induction xs arbitrary: b)
  case Nil
  then show ?case by simp
next
  case (Cons a xs)
  have pa: "proper a" using Cons.prems(1) by (simp add: well_formed_Cons)
  have "hi a + total_blocks xs \<le> 2 ^ 64 - 1"
  proof (rule Cons.IH)
    show "well_formed False xs" using Cons.prems(1) by (simp add: well_formed_Cons)
    show "\<forall>x\<in>set xs. hi a \<le> lo x" using Cons.prems(1) by (simp add: well_formed_Cons)
    show "hi a \<le> 2 ^ 64 - 1" using proper_hi [OF pa] by simp
  qed
  moreover have "b \<le> lo a" using Cons.prems(2) by simp
  ultimately show ?case by (simp add: hi_def lo_def)
qed

lemma total_bound: "well_formed m xs \<Longrightarrow> total_blocks xs < 2 ^ 64"
  using total_bound_aux [of xs 0] well_formed_weaken [of m xs] by simp

subsection \<open>Splitting a set around an extent\<close>

lemma split3:
  assumes "well_formed False xs" "proper e"
  shows "\<exists>ls ms rs. xs = ls @ ms @ rs \<and> (\<forall>x\<in>set ls. gap t x e) \<and>
           (\<forall>x\<in>set ms. \<not> gap t x e \<and> \<not> gap t e x) \<and> (\<forall>x\<in>set rs. gap t e x)"
  using assms(1)
proof (induction xs)
  case Nil
  then show ?case by simp
next
  case (Cons a xs)
  from Cons.prems have pa: "proper a" and ga: "\<forall>y\<in>set xs. hi a \<le> lo y"
    and wf: "well_formed False xs"
    by (simp_all add: well_formed_Cons)
  from Cons.IH [OF wf] obtain ls ms rs where
    xs: "xs = ls @ ms @ rs" and L: "\<forall>x\<in>set ls. gap t x e"
    and M: "\<forall>x\<in>set ms. \<not> gap t x e \<and> \<not> gap t e x" and R: "\<forall>x\<in>set rs. gap t e x"
    by blast
  note la = proper_lt [OF pa] and le = proper_lt [OF assms(2)]
  show ?case
  proof (cases "gap t a e")
    case True
    have "a # xs = (a # ls) @ ms @ rs" using xs by simp
    with True L M R show ?thesis by (metis set_ConsD)
  next
    case False
    have "ls = []"
    proof (rule ccontr)
      assume "ls \<noteq> []"
      then obtain y where y: "y \<in> set ls" by (cases ls) auto
      then have "hi a \<le> lo y" "gap t y e" "lo y < hi y"
        using ga xs L wf by (auto simp: well_formed_def intro: proper_lt)
      with False show False by (auto simp: gap_def split: if_splits)
    qed
    show ?thesis
    proof (cases "gap t e a")
      case True
      have "ms = []"
      proof (rule ccontr)
        assume "ms \<noteq> []"
        then obtain y where y: "y \<in> set ms" by (cases ms) auto
        then have "hi a \<le> lo y" "\<not> gap t e y"
          using ga xs M by auto
        with True la show False by (auto simp: gap_def split: if_splits)
      qed
      have "a # xs = [] @ [] @ (a # rs)" using xs \<open>ls = []\<close> \<open>ms = []\<close> by simp
      with True R show ?thesis by (metis empty_iff list.set(1) set_ConsD)
    next
      case nr: False
      have "a # xs = [] @ (a # ms) @ rs" using xs \<open>ls = []\<close> by simp
      with False nr M R show ?thesis by (metis empty_iff list.set(1) set_ConsD)
    qed
  qed
qed

subsection \<open>The union of two extents\<close>

lemma bounded_start_ne: "proper a \<Longrightarrow> kSparseHole \<noteq> start_block a"
  using proper_start [of a] by auto

lemma union_ok:
  "proper a \<Longrightarrow> proper b \<Longrightarrow> UnionOverlappingExtents a b = Inr (extent_union a b)"
  by (simp add: UnionOverlappingExtents_def extent_union_def bounded_start_ne Let_def)

lemma lo_union: "lo (extent_union a b) = min (lo a) (lo b)"
  unfolding extent_union_def lo_ForRange by (simp add: unat_min lo_def)

lemma hi_union:
  assumes "bounded a" "bounded b"
  shows "hi (extent_union a b) = max (hi a) (hi b)"
proof -
  let ?s = "min (start_block a) (start_block b)"
  let ?e = "max (start_block a + num_blocks a) (start_block b + num_blocks b)"
  have s: "unat ?s = min (lo a) (lo b)" by (simp add: unat_min lo_def)
  have e: "unat ?e = max (hi a) (hi b)" by (simp add: unat_max end_unat assms)
  have "min (lo a) (lo b) \<le> max (hi a) (hi b)"
    using lo_le_hi [of a] by (simp add: min_le_iff_disj le_max_iff_disj)
  then have le: "unat ?s \<le> unat ?e" by (simp only: s e)
  then have "?s \<le> ?e" by (simp only: word_le_nat_alt)
  then have "unat (?e - ?s) = unat ?e - unat ?s" by (rule unat_sub)
  with le show ?thesis
    unfolding extent_union_def hi_ForRange by (simp only: e) simp
qed

lemma proper_union:
  assumes "proper a" "proper b"
  shows "proper (extent_union a b)"
  using assms hi_union [of a b] lo_union [of a b]
  by (auto simp: proper_iff proper_bounded)

lemma blocks_union:
  assumes "proper a" "proper b" "lo b \<le> hi a" "lo a \<le> hi b"
  shows "extent_blocks (extent_union a b) = extent_blocks a \<union> extent_blocks b"
  using assms hi_union [of a b] lo_union [of a b] proper_lt [of a] proper_lt [of b]
  by (auto simp: extent_blocks_def proper_bounded)

subsection \<open>The union over a run of entries\<close>

lemma hull_Nil [simp]: "hull e [] = e"
  by (simp add: hull_def)

lemma hull_Cons [simp]: "hull e (x # ms) = hull (extent_union e x) ms"
  by (simp add: hull_def)

lemma proper_hull: "proper e \<Longrightarrow> \<forall>x\<in>set ms. proper x \<Longrightarrow> proper (hull e ms)"
  by (induction ms arbitrary: e) (auto simp: proper_union)

lemma lo_hull_ge:
  "proper e \<Longrightarrow> \<forall>x\<in>set ms. proper x \<Longrightarrow>
   c \<le> lo (hull e ms) \<longleftrightarrow> c \<le> lo e \<and> (\<forall>x\<in>set ms. c \<le> lo x)"
  by (induction ms arbitrary: e) (auto simp: proper_union lo_union)

lemma lo_hull_gt:
  "proper e \<Longrightarrow> \<forall>x\<in>set ms. proper x \<Longrightarrow>
   c < lo (hull e ms) \<longleftrightarrow> c < lo e \<and> (\<forall>x\<in>set ms. c < lo x)"
  by (induction ms arbitrary: e) (auto simp: proper_union lo_union)

lemma hi_hull_le:
  "proper e \<Longrightarrow> \<forall>x\<in>set ms. proper x \<Longrightarrow>
   hi (hull e ms) \<le> c \<longleftrightarrow> hi e \<le> c \<and> (\<forall>x\<in>set ms. hi x \<le> c)"
  by (induction ms arbitrary: e) (auto simp: proper_union hi_union proper_bounded)

lemma hi_hull_lt:
  "proper e \<Longrightarrow> \<forall>x\<in>set ms. proper x \<Longrightarrow>
   hi (hull e ms) < c \<longleftrightarrow> hi e < c \<and> (\<forall>x\<in>set ms. hi x < c)"
  by (induction ms arbitrary: e) (auto simp: proper_union hi_union proper_bounded)

lemma blocks_hull:
  "proper e \<Longrightarrow> \<forall>x\<in>set ms. proper x \<and> lo x \<le> hi e \<and> lo e \<le> hi x \<Longrightarrow>
   extent_blocks (hull e ms) = extent_blocks e \<union> covered ms"
proof (induction ms arbitrary: e)
  case Nil
  then show ?case by simp
next
  case (Cons a ms)
  have u: "proper (extent_union e a)" using Cons.prems by (simp add: proper_union)
  have "extent_blocks (hull (extent_union e a) ms) = extent_blocks (extent_union e a) \<union> covered ms"
  proof (rule Cons.IH [OF u], intro ballI conjI)
    fix x assume "x \<in> set ms"
    with Cons.prems show "proper x" "lo x \<le> hi (extent_union e a)" "lo (extent_union e a) \<le> hi x"
      by (auto simp: hi_union lo_union proper_bounded)
  qed
  moreover have "extent_blocks (extent_union e a) = extent_blocks e \<union> extent_blocks a"
    using Cons.prems by (intro blocks_union) auto
  ultimately show ?case by auto
qed

subsection \<open>The candidate range\<close>

declare walk_lower.simps [simp del] walk_upper.simps [simp del]
  AddExtent_loop.simps [simp del]

lemma lower_bound_le: "lower_bound xs x \<le> length xs"
  by (simp add: lower_bound_def length_takeWhile_le)

lemma upper_bound_le: "upper_bound xs x \<le> length xs"
  by (simp add: upper_bound_def length_takeWhile_le)

lemma walk_lower_stop:
  "i \<le> length xs \<Longrightarrow>
   walk_lower xs e i = 0 \<or>
   (walk_lower xs e i < length xs \<and>
    \<not> start_block e < start_block (xs ! walk_lower xs e i) + num_blocks (xs ! walk_lower xs e i))"
proof (induction xs e i rule: walk_lower.induct)
  case (1 xs extent lower_it)
  show ?case
  proof (cases "lower_it \<noteq> 0 \<and>
         (lower_it = length xs \<or>
          start_block (xs ! lower_it) + num_blocks (xs ! lower_it) > start_block extent)")
    case True
    then have "walk_lower xs extent lower_it = walk_lower xs extent (lower_it - 1)"
      by (subst walk_lower.simps) simp
    moreover have "lower_it - 1 \<le> length xs" using "1.prems" by simp
    ultimately show ?thesis using "1.IH" [OF True] by simp
  next
    case False
    then have "walk_lower xs extent lower_it = lower_it"
      by (subst walk_lower.simps) auto
    with False "1.prems" show ?thesis by auto
  qed
qed

lemma walk_upper_stop:
  "i \<le> length xs \<Longrightarrow>
   walk_upper xs e i \<le> length xs \<and>
   (walk_upper xs e i = length xs \<or>
    \<not> start_block (xs ! walk_upper xs e i) \<le> start_block e + num_blocks e)"
proof (induction xs e i rule: walk_upper.induct)
  case (1 xs extent upper_it)
  show ?case
  proof (cases "upper_it < length xs \<and>
         start_block (xs ! upper_it) \<le> start_block extent + num_blocks extent")
    case True
    then have "walk_upper xs extent upper_it = walk_upper xs extent (Suc upper_it)"
      by (subst walk_upper.simps) simp
    moreover have "Suc upper_it \<le> length xs" using True by simp
    ultimately show ?thesis using "1.IH" [OF True] by simp
  next
    case False
    then have "walk_upper xs extent upper_it = upper_it"
      by (subst walk_upper.simps) auto
    with False "1.prems" show ?thesis by auto
  qed
qed

lemma well_formed_proper: "well_formed m xs \<Longrightarrow> x \<in> set xs \<Longrightarrow> proper x"
  by (simp add: well_formed_def)

lemma well_formed_nth_gap:
  "well_formed m xs \<Longrightarrow> i < j \<Longrightarrow> j < length xs \<Longrightarrow> gap m (xs ! i) (xs ! j)"
  by (simp add: well_formed_def sorted_wrt_nth_less)

lemma candidate_range:
  assumes wf: "well_formed m (ls @ ms @ rs)" and e: "proper e"
    and L: "\<forall>x\<in>set ls. gap m x e"
    and M: "\<forall>x\<in>set ms. \<not> gap m x e \<and> \<not> gap m e x"
    and R: "\<forall>x\<in>set rs. gap m e x"
    and c: "GetCandidateRange (ls @ ms @ rs) e = (l, u)"
  shows "l \<le> length ls \<and> length ls + length ms \<le> u \<and> u \<le> length (ls @ ms @ rs)"
proof -
  let ?xs = "ls @ ms @ rs"
  note le = proper_lt [OF e]
  have l: "l = walk_lower ?xs e (lower_bound ?xs e)"
    and u: "u = walk_upper ?xs e
        (upper_bound ?xs (ExtentForRange (start_block e + num_blocks e) 1))"
    using c by (simp_all add: GetCandidateRange_def)
  have 1: "l \<le> length ls"
  proof (rule ccontr)
    assume n: "\<not> l \<le> length ls"
    then have "l \<noteq> 0" by simp
    with walk_lower_stop [OF lower_bound_le, of ?xs e e] l
    have ll: "l < length ?xs" and st: "\<not> start_block e < start_block (?xs ! l) + num_blocks (?xs ! l)"
      by auto
    have pl: "proper (?xs ! l)" using ll by (intro well_formed_proper [OF wf] nth_mem)
    from st have hl: "hi (?xs ! l) \<le> lo e"
      by (simp add: word_less_nat_alt end_unat [OF proper_bounded [OF pl]] lo_def not_less)
    let ?y = "?xs ! length ls"
    have "gap m ?y (?xs ! l)" using n ll by (intro well_formed_nth_gap [OF wf]) auto
    then have "hi ?y \<le> lo (?xs ! l)" by (rule gap_weaken)
    with hl proper_lt [OF pl] have lt: "hi ?y < lo e" by simp
    have "?y = (ms @ rs) ! 0" by (simp add: nth_append)
    moreover have "0 < length (ms @ rs)" using n ll by (cases ms; cases rs) auto
    ultimately have "?y \<in> set (ms @ rs)" by (metis nth_mem)
    then have py: "proper ?y" using wf by (auto simp: well_formed_def)
    from \<open>?y \<in> set (ms @ rs)\<close> consider "?y \<in> set ms" | "?y \<in> set rs" by auto
    then show False
    proof cases
      case 1
      with M lt show False by (auto simp: gap_def split: if_splits)
    next
      case 2
      with R have "hi e \<le> lo ?y" by (auto dest: gap_weaken)
      with lt le proper_lt [OF py] show False by simp
    qed
  qed
  have ub: "upper_bound ?xs (ExtentForRange (start_block e + num_blocks e) 1) \<le> length ?xs"
    by (rule upper_bound_le)
  have 2: "u \<le> length ?xs" using walk_upper_stop [OF ub, of e] u by simp
  have 3: "length ls + length ms \<le> u"
  proof (rule ccontr)
    assume n: "\<not> length ls + length ms \<le> u"
    then have "u \<noteq> length ?xs" by auto
    with walk_upper_stop [OF ub, of e] u
    have st: "\<not> start_block (?xs ! u) \<le> start_block e + num_blocks e" by auto
    then have h: "hi e < lo (?xs ! u)"
      by (simp add: word_le_nat_alt end_unat [OF proper_bounded [OF e]] lo_def not_le)
    have "?xs ! u = (ls @ ms) ! u" using n by (simp add: nth_append)
    moreover have "(ls @ ms) ! u \<in> set (ls @ ms)" using n by (intro nth_mem) simp
    ultimately consider "?xs ! u \<in> set ls" | "?xs ! u \<in> set ms" by auto
    then show False
    proof cases
      case 1
      with L have "hi (?xs ! u) \<le> lo e" by (auto dest: gap_weaken)
      with h le lo_le_hi [of "?xs ! u"] show False by simp
    next
      case 2
      with M h show False by (auto simp: gap_def split: if_splits)
    qed
  qed
  from 1 2 3 show ?thesis by simp
qed

subsection \<open>The loop of AddExtent\<close>

lemma add_loop_done [simp]: "AddExtent_loop xs m e e st = Inr st"
  by (cases st) (simp add: AddExtent_loop.simps)

lemma add_loop_skip:
  assumes "it \<le> k" "k \<le> e" "k \<le> length xs"
    and "\<And>i. it \<le> i \<Longrightarrow> i < k \<Longrightarrow> \<not> should_merge m (xs ! i) ext"
  shows "AddExtent_loop xs m it e (bd, ed, db, ext) = AddExtent_loop xs m k e (bd, ed, db, ext)"
  using assms(1,4)
proof (induction rule: inc_induct)
  case base
  show ?case by simp
next
  case (step n)
  have "\<not> should_merge m (xs ! n) ext" using step by simp
  moreover have "n \<noteq> e" "\<not> length xs \<le> n" using step(2) assms(2,3) by auto
  ultimately have "AddExtent_loop xs m n e (bd, ed, db, ext) =
      AddExtent_loop xs m (Suc n) e (bd, ed, db, ext)"
    by (subst AddExtent_loop.simps) (simp add: should_merge_def)
  also have "\<dots> = AddExtent_loop xs m k e (bd, ed, db, ext)"
    using step by simp
  finally show ?case .
qed

lemma should_merge_proper:
  assumes "proper x" "proper ext"
  shows "should_merge m x ext \<longleftrightarrow> \<not> gap m x ext \<and> \<not> gap m ext x"
  using assms
  by (auto simp: should_merge_def gap_def overlap_proper overlap_or_touch_proper)

lemma of_nat_total_Cons:
  "db + num_blocks x + of_nat (total_blocks ms) = db + (of_nat (total_blocks (x # ms)) :: u64)"
  by simp

lemma add_loop_run:
  assumes "proper e" "\<forall>x\<in>set ms. proper x \<and> \<not> gap m x e \<and> \<not> gap m e x"
    and "length ls + length ms \<le> u"
    and "proper cur" "lo cur \<le> lo e" "hi e \<le> hi cur"
  shows "AddExtent_loop (ls @ ms @ rs) m (length ls) u (bd, ed, db, cur) =
         AddExtent_loop (ls @ ms @ rs) m (length ls + length ms) u
           (if ms = [] then bd else if bd = length (ls @ ms @ rs) then length ls else bd,
            if ms = [] then ed else length ls + length ms,
            db + of_nat (total_blocks ms), hull cur ms)"
  using assms(2-)
proof (induction ms arbitrary: ls bd ed db cur)
  case Nil
  then show ?case by simp
next
  case (Cons x ms)
  let ?xs = "ls @ (x # ms) @ rs"
  have px: "proper x" and gx: "\<not> gap m x e" "\<not> gap m e x" using Cons.prems(1) by auto
  have sm: "should_merge m x cur"
    using gx Cons.prems(3-) px
    by (auto simp: should_merge_proper gap_def split: if_splits)
  have u: "UnionOverlappingExtents cur x = Inr (extent_union cur x)"
    using px Cons.prems(3) by (rule union_ok [rotated])
  have nx: "?xs ! length ls = x" by simp
  have "length ls \<noteq> u" "\<not> length ?xs \<le> length ls" using Cons.prems(2) by auto
  then have "AddExtent_loop ?xs m (length ls) u (bd, ed, db, cur) =
      AddExtent_loop ?xs m (Suc (length ls)) u
        (if bd = length ?xs then length ls else bd, Suc (length ls),
         db + num_blocks x, extent_union cur x)"
    using sm u
    by (subst AddExtent_loop.simps) (simp only: nx should_merge_def [symmetric] if_True if_False sum.case)
  also have "\<dots> = AddExtent_loop ((ls @ [x]) @ ms @ rs) m (length (ls @ [x])) u
        (if bd = length ?xs then length ls else bd, Suc (length ls),
         db + num_blocks x, extent_union cur x)"
    by simp
  also have "\<dots> = AddExtent_loop ((ls @ [x]) @ ms @ rs) m (length (ls @ [x]) + length ms) u
      (if ms = [] then (if bd = length ?xs then length ls else bd)
       else if (if bd = length ?xs then length ls else bd) = length ((ls @ [x]) @ ms @ rs)
         then length (ls @ [x]) else (if bd = length ?xs then length ls else bd),
       if ms = [] then Suc (length ls) else length (ls @ [x]) + length ms,
       db + num_blocks x + of_nat (total_blocks ms), hull (extent_union cur x) ms)"
  proof (rule Cons.IH)
    show "\<forall>x\<in>set ms. proper x \<and> \<not> gap m x e \<and> \<not> gap m e x" using Cons.prems(1) by simp
    show "length (ls @ [x]) + length ms \<le> u" using Cons.prems(2) by simp
    show "proper (extent_union cur x)" using Cons.prems(3) px by (rule proper_union)
    show "lo (extent_union cur x) \<le> lo e" using Cons.prems(4) by (simp add: lo_union min_le_iff_disj)
    show "hi e \<le> hi (extent_union cur x)"
      using Cons.prems(3,5) px by (simp add: hi_union proper_bounded le_max_iff_disj)
  qed
  finally show ?case
    by (simp add: of_nat_total_Cons del: total_blocks_simps)
qed

subsection \<open>AddExtent on a well-formed set\<close>

lemma erase_all [simp]: "erase xs (length xs) (length xs) = xs"
  by (simp add: erase_def)

lemma erase_middle [simp]:
  "erase (ls @ ms @ rs) (length ls) (length ls + length ms) = ls @ rs"
  by (simp add: erase_def)

lemma AddExtent_split:
  assumes wf: "well_formed m (ls @ ms @ rs)" and e: "proper e"
    and L: "\<forall>x\<in>set ls. gap m x e"
    and M: "\<forall>x\<in>set ms. \<not> gap m x e \<and> \<not> gap m e x"
    and R: "\<forall>x\<in>set rs. gap m e x"
  shows "AddExtent \<lparr>extent_set = ls @ ms @ rs, blocks = b, merge_touching_extents = m\<rparr> e =
         Inr \<lparr>extent_set = ls @ hull e ms # rs,
              blocks = b - of_nat (total_blocks ms) + num_blocks (hull e ms),
              merge_touching_extents = m\<rparr>"
proof -
  let ?xs = "ls @ ms @ rs"
  let ?h = "hull e ms"
  obtain l u where c: "GetCandidateRange ?xs e = (l, u)" by (cases "GetCandidateRange ?xs e")
  from candidate_range [OF wf e L M R c]
  have l: "l \<le> length ls" and u: "length ls + length ms \<le> u" and un: "u \<le> length ?xs"
    by simp_all
  have pm: "\<forall>x\<in>set ms. proper x" and pl: "\<forall>x\<in>set ls. proper x" and pr: "\<forall>x\<in>set rs. proper x"
    using wf by (auto simp: well_formed_def)
  have ph: "proper ?h" using e pm by (rule proper_hull)
  let ?st = "(if ms = [] then length ?xs else length ls,
            if ms = [] then length ?xs else length ls + length ms,
            of_nat (total_blocks ms) :: u64, ?h)"
  have "AddExtent_loop ?xs m l u (length ?xs, length ?xs, 0, e) =
        AddExtent_loop ?xs m (length ls) u (length ?xs, length ?xs, 0, e)"
  proof (rule add_loop_skip [OF l])
    show "length ls \<le> u" using u by simp
    show "length ls \<le> length ?xs" by simp
    fix i assume "l \<le> i" "i < length ls"
    then have "?xs ! i \<in> set ls" by (simp add: nth_append)
    with L pl e show "\<not> should_merge m (?xs ! i) e" by (simp add: should_merge_proper)
  qed
  also have "\<dots> = AddExtent_loop ?xs m (length ls + length ms) u ?st"
    using add_loop_run [OF e _ u e, of m rs "length ?xs" "length ?xs" 0] M pm
    by simp
  also have "\<dots> = AddExtent_loop ?xs m u u ?st"
  proof (rule add_loop_skip [OF u _ un])
    show "u \<le> u" by simp
    fix i assume i: "length ls + length ms \<le> i" "i < u"
    then have "?xs ! i = rs ! (i - length ls - length ms)"
      by (simp add: nth_append)
    moreover have "i - length ls - length ms < length rs" using i un by simp
    ultimately have r: "?xs ! i \<in> set rs" by (metis nth_mem)
    have "gap m ?h (?xs ! i)"
    proof (cases m)
      case True
      then show ?thesis using r R wf
        by (auto simp: hi_hull_lt [OF e pm] well_formed_append)
    next
      case False
      then show ?thesis using r R wf
        by (auto simp: hi_hull_le [OF e pm] well_formed_append)
    qed
    with r pr ph show "\<not> should_merge m (?xs ! i) ?h" by (simp add: should_merge_proper)
  qed
  finally have loop: "AddExtent_loop ?xs m l u (length ?xs, length ?xs, 0, e) = Inr ?st"
    by simp
  have er: "erase ?xs (if ms = [] then length ?xs else length ls)
      (if ms = [] then length ?xs else length ls + length ms) = ls @ rs"
    by (simp del: length_append append_assoc)
  have ins: "set_insert ?h (ls @ rs) = ls @ ?h # rs"
  proof (rule set_insert_middle, intro ballI)
    fix x assume x: "x \<in> set ls"
    have "gap m x e" "proper x" using L pl x by auto
    then have "hi x \<le> lo e" "lo x < hi x" by (auto dest: gap_weaken proper_lt)
    moreover have "\<forall>y\<in>set ms. gap m x y" using wf x by (simp add: well_formed_append)
    then have "\<forall>y\<in>set ms. hi x \<le> lo y" by (blast dest: gap_weaken)
    moreover have "\<forall>y\<in>set ms. lo y < hi y" using pm by (auto dest: proper_lt)
    ultimately have "lo x < lo ?h" using proper_lt [OF e]
      by (fastforce simp: lo_hull_gt [OF e pm])
    then show "ExtentLess x ?h" by (rule ExtentLess_lo)
  next
    show "\<forall>y\<in>set rs. ExtentLess ?h y"
    proof
      fix y assume "y \<in> set rs"
      with R have "hi e \<le> lo y" by (auto dest: gap_weaken)
      moreover have "lo ?h \<le> lo e" using lo_hull_ge [OF e pm, of "lo ?h"] by simp
      ultimately have "lo ?h < lo y" using proper_lt [OF e] by simp
      then show "ExtentLess ?h y" by (rule ExtentLess_lo)
    qed
  qed
  have s: "start_block e \<noteq> kSparseHole" "num_blocks e \<noteq> 0"
    using e by (simp_all add: proper_start proper_def)
  show ?thesis
    unfolding AddExtent_def
    by (simp only: s c loop er ins Let_def ExtentRanges.simps if_False simp_thms
        prod.case sum.case ExtentRanges.update_convs)
qed

lemma ranges_eq:
  "s = \<lparr>extent_set = extent_set s, blocks = blocks s,
        merge_touching_extents = merge_touching_extents s\<rparr>"
  by simp

lemma unat_blocks_eq:
  assumes "unat (b :: u64) = p + q + r" "p + k + r < 2 ^ 64"
  shows "unat (b - of_nat q + of_nat k) = p + k + r"
proof -
  have "b = of_nat (unat b)" by simp
  then have "b = of_nat (p + q + r)" using assms(1) by simp
  then have "b - of_nat q + of_nat k = (of_nat (p + k + r) :: u64)" by simp
  then show ?thesis using assms(2) by (simp add: of_nat_inverse)
qed

lemma not_gap_le: "\<not> gap m a b \<Longrightarrow> lo b \<le> hi a"
  by (auto simp: gap_def split: if_splits)

lemma union_absorb:
  assumes "bounded e" "bounded h" "lo h \<le> lo e" "hi e \<le> hi h"
  shows "extent_union e h = h"
proof -
  have "start_block h \<le> start_block e" using assms(3) by (simp add: start_le_iff)
  moreover have "start_block e + num_blocks e \<le> start_block h + num_blocks h"
    using assms by (simp add: word_le_nat_alt end_unat)
  ultimately show ?thesis
    by (simp add: extent_union_def ExtentForRange_def min_def max_def)
qed

lemma AddExtent_proper:
  assumes ok: "ranges_ok s" and e: "proper e"
  shows "\<exists>s'. AddExtent s e = Inr s' \<and> ranges_ok s' \<and>
           merge_touching_extents s' = merge_touching_extents s \<and>
           covered (extent_set s') = covered (extent_set s) \<union> extent_blocks e \<and>
           AddExtent s' e = Inr s'"
proof -
  let ?m = "merge_touching_extents s"
  have wf: "well_formed ?m (extent_set s)" and bl: "unat (blocks s) = total_blocks (extent_set s)"
    using ok by (simp_all add: ranges_ok_def)
  from split3 [OF well_formed_weaken [OF wf] e, of ?m] obtain ls ms rs where
    xs: "extent_set s = ls @ ms @ rs" and L: "\<forall>x\<in>set ls. gap ?m x e"
    and M: "\<forall>x\<in>set ms. \<not> gap ?m x e \<and> \<not> gap ?m e x" and R: "\<forall>x\<in>set rs. gap ?m e x"
    by blast
  note wf' = wf [unfolded xs]
  let ?h = "hull e ms"
  let ?b = "blocks s - of_nat (total_blocks ms) + num_blocks ?h"
  let ?s' = "\<lparr>extent_set = ls @ ?h # rs, blocks = ?b, merge_touching_extents = ?m\<rparr>"
  have s: "s = \<lparr>extent_set = ls @ ms @ rs, blocks = blocks s, merge_touching_extents = ?m\<rparr>"
    using xs by simp
  have add: "AddExtent s e = Inr ?s'"
    by (subst s) (rule AddExtent_split [OF wf' e L M R])
  have pm: "\<forall>x\<in>set ms. proper x" and pl: "\<forall>x\<in>set ls. proper x" and pr: "\<forall>x\<in>set rs. proper x"
    using wf' by (auto simp: well_formed_def)
  have ph: "proper ?h" using e pm by (rule proper_hull)
  have lh: "lo ?h \<le> lo e" using lo_hull_ge [OF e pm, of "lo ?h"] by simp
  have hh: "hi e \<le> hi ?h" using hi_hull_le [OF e pm, of "hi ?h"] by simp
  have gl: "\<forall>x\<in>set ls. gap ?m x ?h"
  proof
    fix x assume x: "x \<in> set ls"
    have "\<forall>y\<in>set ms. gap ?m x y" using wf' x by (simp add: well_formed_append)
    with L x show "gap ?m x ?h"
      by (cases ?m) (auto simp: lo_hull_gt [OF e pm] lo_hull_ge [OF e pm])
  qed
  have gr: "\<forall>y\<in>set rs. gap ?m ?h y"
  proof
    fix y assume y: "y \<in> set rs"
    have "\<forall>x\<in>set ms. gap ?m x y" using wf' y by (simp add: well_formed_append)
    with R y show "gap ?m ?h y"
      by (cases ?m) (auto simp: hi_hull_lt [OF e pm] hi_hull_le [OF e pm])
  qed
  have wfn: "well_formed ?m (ls @ ?h # rs)"
    using wf' gl gr ph by (auto simp: well_formed_append well_formed_Cons)
  have "unat ?b = total_blocks ls + unat (num_blocks ?h) + total_blocks rs"
  proof -
    have "unat (blocks s - of_nat (total_blocks ms) + of_nat (unat (num_blocks ?h))) =
        total_blocks ls + unat (num_blocks ?h) + total_blocks rs"
    proof (rule unat_blocks_eq)
      show "unat (blocks s) = total_blocks ls + total_blocks ms + total_blocks rs"
        using bl xs by simp
      show "total_blocks ls + unat (num_blocks ?h) + total_blocks rs < 2 ^ 64"
        using total_bound [OF wfn] by simp
    qed
    then show ?thesis by simp
  qed
  then have ok': "ranges_ok ?s'" using wfn by (simp add: ranges_ok_def)
  have "\<forall>x\<in>set ms. proper x \<and> lo x \<le> hi e \<and> lo e \<le> hi x"
    using pm M by (auto intro: not_gap_le)
  then have "extent_blocks ?h = extent_blocks e \<union> covered ms"
    using e by (intro blocks_hull)
  then have cov: "covered (extent_set ?s') = covered (extent_set s) \<union> extent_blocks e"
    using xs by auto
  have again: "AddExtent ?s' e = Inr ?s'"
  proof -
    have wf1: "well_formed ?m (ls @ [?h] @ rs)" using wfn by simp
    have M1: "\<forall>x\<in>set [?h]. \<not> gap ?m x e \<and> \<not> gap ?m e x"
      using lh hh proper_lt [OF e] by (auto simp: gap_def)
    have "AddExtent \<lparr>extent_set = ls @ [?h] @ rs, blocks = ?b, merge_touching_extents = ?m\<rparr> e =
        Inr \<lparr>extent_set = ls @ hull e [?h] # rs,
             blocks = ?b - of_nat (total_blocks [?h]) + num_blocks (hull e [?h]),
             merge_touching_extents = ?m\<rparr>"
      by (rule AddExtent_split [OF wf1 e L M1 R])
    moreover have "hull e [?h] = ?h"
      using union_absorb [OF proper_bounded [OF e] proper_bounded [OF ph] lh hh] by simp
    ultimately show ?thesis by simp
  qed
  from add ok' cov again show ?thesis by auto
qed

subsection \<open>The pieces of a subtraction\<close>

declare SubtractExtent_loop.simps [simp del]

lemma ForRange_sel [simp]:
  "start_block (ExtentForRange s n) = s" "num_blocks (ExtentForRange s n) = n"
  by (simp_all add: ExtentForRange_def)


lemma sub_pieces:
  assumes x: "proper x" and e: "proper e" and o: "lo x < hi e" "lo e < hi x"
  shows "SubtractOverlappingExtents x e =
     (if lo x < lo e
      then [ExtentForRange (start_block x) (start_block e - start_block x)] else []) @
     (if hi e < hi x
      then [ExtentForRange (start_block e + num_blocks e)
              (start_block x + num_blocks x - (start_block e + num_blocks e))] else [])"
proof -
  have ex: "unat (start_block x + num_blocks x) = hi x" and ee: "unat (start_block e + num_blocks e) = hi e"
    using x e by (simp_all add: end_unat proper_bounded)
  have 1: "start_block x + num_blocks x > start_block e + num_blocks e \<longleftrightarrow> hi e < hi x"
    by (simp add: word_less_nat_alt ex ee)
  have 2: "ExtentLess (ExtentForRange (start_block x) n)
      (ExtentForRange (start_block e + num_blocks e) k)" for n k
    using o(1) by (intro ExtentLess_lo) (simp add: ee lo_def [symmetric])
  show ?thesis
    unfolding SubtractOverlappingExtents_def Let_def
    using 2 by (auto simp: 1 start_less_iff dest: ExtentLess_asym)
qed

lemma sub_pieces_props:
  assumes x: "proper x" and e: "proper e" and o: "lo x < hi e" "lo e < hi x"
  shows "well_formed True (pieces e x)"
    and "\<forall>p\<in>set (pieces e x). lo x \<le> lo p \<and> hi p \<le> hi x"
    and "covered (pieces e x) = extent_blocks x - extent_blocks e"
proof -
  let ?p1 = "ExtentForRange (start_block x) (start_block e - start_block x)"
  let ?p2 = "ExtentForRange (start_block e + num_blocks e)
              (start_block x + num_blocks x - (start_block e + num_blocks e))"
  have ex: "unat (start_block x + num_blocks x) = hi x" and ee: "unat (start_block e + num_blocks e) = hi e"
    using x e by (simp_all add: end_unat proper_bounded)
  have h1: "lo x < lo e \<Longrightarrow> hi ?p1 = lo e"
  proof -
    assume "lo x < lo e"
    then have "start_block x \<le> start_block e" by (simp add: start_le_iff)
    then have "unat (start_block e - start_block x) = lo e - lo x"
      by (simp add: unat_sub lo_def)
    with \<open>lo x < lo e\<close> show ?thesis by (simp add: lo_def)
  qed
  have h2: "hi e < hi x \<Longrightarrow> hi ?p2 = hi x"
  proof -
    assume a: "hi e < hi x"
    then have "start_block e + num_blocks e \<le> start_block x + num_blocks x"
      by (simp add: word_le_nat_alt ex ee)
    then have "unat (start_block x + num_blocks x - (start_block e + num_blocks e)) = hi x - hi e"
      by (simp add: unat_sub ex ee)
    with a show ?thesis by (simp add: ee)
  qed
  have l1: "lo ?p1 = lo x" by (simp add: lo_def)
  have l2: "lo ?p2 = hi e" by (simp add: ee)
  note [simp del] = lo_ForRange hi_ForRange
  note sp = sub_pieces [OF assms]
  note le = proper_lt [OF e] and hx = proper_hi [OF x]
  have w1: "lo x < lo e \<Longrightarrow> proper ?p1" using h1 l1 le hx o by (simp add: proper_iff)
  have w2: "hi e < hi x \<Longrightarrow> proper ?p2" using h2 l2 le hx by (simp add: proper_iff)
  show "well_formed True (pieces e x)"
    using o w1 w2 le by (cases "lo x < lo e"; cases "hi e < hi x")
      (simp_all add: sp well_formed_Cons h1 l2 del: lo_ForRange hi_ForRange)
  show "\<forall>p\<in>set (pieces e x). lo x \<le> lo p \<and> hi p \<le> hi x"
    using o le by (cases "lo x < lo e"; cases "hi e < hi x")
      (simp_all add: sp h1 h2 l1 l2 del: lo_ForRange hi_ForRange)
  show "covered (pieces e x) = extent_blocks x - extent_blocks e"
    using o le by (cases "lo x < lo e"; cases "hi e < hi x")
      (auto simp: sp h1 h2 l1 l2 extent_blocks_def simp del: lo_ForRange hi_ForRange)
qed

lemma overlap_iff_mid:
  "proper x \<Longrightarrow> proper e \<Longrightarrow> ExtentsOverlap x e \<longleftrightarrow> \<not> gap False x e \<and> \<not> gap False e x"
  by (auto simp: overlap_proper)

subsection \<open>Replacing entries by parts of them\<close>

lemma gap_mono: "gap m x y \<Longrightarrow> hi p \<le> hi x \<Longrightarrow> lo y \<le> lo q \<Longrightarrow> gap m p q"
  by (auto simp: gap_def split: if_splits)

lemma well_formed_True_imp: "well_formed True xs \<Longrightarrow> well_formed m xs"
proof -
  assume a: "well_formed True xs"
  have "sorted_wrt (gap m) xs"
    by (rule sorted_wrt_mono_rel [of xs "gap True"])
      (use a in \<open>auto simp: well_formed_def gap_def\<close>)
  with a show ?thesis by (simp add: well_formed_def)
qed

lemma concat_within:
  assumes "\<forall>x\<in>set ms. well_formed True (P x) \<and> (\<forall>p\<in>set (P x). lo x \<le> lo p \<and> hi p \<le> hi x)"
    and "p \<in> set (concat (map P ms))"
  shows "\<exists>x\<in>set ms. lo x \<le> lo p \<and> hi p \<le> hi x \<and> proper p"
  using assms by (auto simp: well_formed_def)

lemma well_formed_concat:
  assumes "well_formed m ms"
    and "\<forall>x\<in>set ms. well_formed True (P x) \<and> (\<forall>p\<in>set (P x). lo x \<le> lo p \<and> hi p \<le> hi x)"
  shows "well_formed m (concat (map P ms))"
  using assms
proof (induction ms)
  case Nil
  then show ?case by simp
next
  case (Cons x ms)
  have 1: "well_formed m (P x)" using Cons.prems(2) by (simp add: well_formed_True_imp)
  have 2: "well_formed m (concat (map P ms))"
    using Cons.prems by (intro Cons.IH) (simp_all add: well_formed_Cons)
  have 3: "gap m p q" if p: "p \<in> set (P x)" and q: "q \<in> set (concat (map P ms))" for p q
  proof -
    from concat_within [OF _ q, of] Cons.prems(2) obtain y where
      y: "y \<in> set ms" "lo y \<le> lo q" by auto
    have "gap m x y" using Cons.prems(1) y(1) by (simp add: well_formed_Cons)
    moreover have "hi p \<le> hi x" using Cons.prems(2) p by simp
    ultimately show ?thesis using y(2) by (rule gap_mono)
  qed
  from 1 2 3 show ?case by (simp add: well_formed_append)
qed

lemma well_formed_refine:
  assumes wf: "well_formed m (ls @ ms @ rs)"
    and P: "\<forall>x\<in>set ms. well_formed True (P x) \<and> (\<forall>p\<in>set (P x). lo x \<le> lo p \<and> hi p \<le> hi x)"
  shows "well_formed m (ls @ concat (map P ms) @ rs)"
proof -
  have 1: "well_formed m (concat (map P ms))"
    using wf P by (intro well_formed_concat) (simp_all add: well_formed_append)
  have 2: "gap m a p" if a: "a \<in> set ls" and p: "p \<in> set (concat (map P ms))" for a p
  proof -
    from concat_within [OF P p] obtain x where x: "x \<in> set ms" "lo x \<le> lo p" by auto
    have "gap m a x" using wf a x(1) by (simp add: well_formed_append)
    then show ?thesis using _ x(2) by (rule gap_mono) simp
  qed
  have 3: "gap m p c" if c: "c \<in> set rs" and p: "p \<in> set (concat (map P ms))" for c p
  proof -
    from concat_within [OF P p] obtain x where x: "x \<in> set ms" "hi p \<le> hi x" by auto
    have "gap m x c" using wf c x(1) by (simp add: well_formed_append)
    then show ?thesis using x(2) by (rule gap_mono) simp
  qed
  from wf 1 2 3 show ?thesis by (simp add: well_formed_append) blast
qed

lemma covered_concat:
  "\<forall>x\<in>set ms. covered (P x) = extent_blocks x - B \<Longrightarrow>
   covered (concat (map P ms)) = covered ms - B"
  by (induction ms) auto

subsection \<open>SubtractExtent on a well-formed set\<close>

lemma sub_loop_end: "length xs \<le> it \<Longrightarrow> SubtractExtent_loop xs e it st = st"
  by (cases st) (simp add: SubtractExtent_loop.simps)

lemma sub_loop_skip:
  assumes "it \<le> k" "k \<le> length xs"
    and "\<And>i. it \<le> i \<Longrightarrow> i < k \<Longrightarrow> \<not> ExtentsOverlap (xs ! i) e"
  shows "SubtractExtent_loop xs e it (bd, ed, db, new) =
         SubtractExtent_loop xs e k (bd, ed, db, new)"
  using assms(1,3)
proof (induction rule: inc_induct)
  case base
  show ?case by simp
next
  case (step n)
  have "\<not> ExtentsOverlap (xs ! n) e" using step by simp
  moreover have "\<not> length xs \<le> n" using step(2) assms(2) by auto
  ultimately have "SubtractExtent_loop xs e n (bd, ed, db, new) =
      SubtractExtent_loop xs e (Suc n) (bd, ed, db, new)"
    by (subst SubtractExtent_loop.simps) simp
  also have "\<dots> = SubtractExtent_loop xs e k (bd, ed, db, new)"
    using step by simp
  finally show ?case .
qed

lemma fold_minus_total:
  "fold (\<lambda>jt d. d - num_blocks jt) ps (d :: u64) = d - of_nat (total_blocks ps)"
  by (induction ps arbitrary: d) simp_all

lemma fold_set_insert_append:
  "sorted_wrt ExtentLess (new @ ps) \<Longrightarrow> fold set_insert ps new = new @ ps"
  using fold_set_insert_middle [of new ps "[]"] by simp

lemma sub_loop_run:
  assumes "\<forall>x\<in>set ms. ExtentsOverlap x e"
    and "sorted_wrt ExtentLess (new @ concat (map (pieces e) ms))"
  shows "SubtractExtent_loop (ls @ ms @ rs) e (length ls) (bd, ed, db, new) =
         SubtractExtent_loop (ls @ ms @ rs) e (length ls + length ms)
           (if ms = [] then bd else if bd = length (ls @ ms @ rs) then length ls else bd,
            if ms = [] then ed else length ls + length ms,
            db + of_nat (total_blocks ms) - of_nat (total_blocks (concat (map (pieces e) ms))),
            new @ concat (map (pieces e) ms))"
  using assms
proof (induction ms arbitrary: ls bd ed db new)
  case Nil
  then show ?case by simp
next
  case (Cons x ms)
  let ?xs = "ls @ (x # ms) @ rs"
  let ?bd = "if bd = length ?xs then length ls else bd"
  let ?db = "db + num_blocks x - of_nat (total_blocks (pieces e x))"
  have ox: "ExtentsOverlap x e" using Cons.prems(1) by simp
  have nx: "?xs ! length ls = x" by simp
  have so: "sorted_wrt ExtentLess (new @ pieces e x)"
    using Cons.prems(2) by (simp add: sorted_wrt_append)
  have "\<not> length ?xs \<le> length ls" by simp
  then have "SubtractExtent_loop ?xs e (length ls) (bd, ed, db, new) =
      SubtractExtent_loop ?xs e (Suc (length ls))
        (?bd, Suc (length ls), ?db, new @ pieces e x)"
    using ox
    by (subst SubtractExtent_loop.simps)
      (simp only: nx if_False not_not if_True Let_def fold_minus_total
        fold_set_insert_append [OF so] simp_thms)
  also have "\<dots> = SubtractExtent_loop ((ls @ [x]) @ ms @ rs) e (length (ls @ [x]))
        (?bd, Suc (length ls), ?db, new @ pieces e x)"
    by simp
  also have "\<dots> = SubtractExtent_loop ((ls @ [x]) @ ms @ rs) e (length (ls @ [x]) + length ms)
      (if ms = [] then ?bd
       else if ?bd = length ((ls @ [x]) @ ms @ rs) then length (ls @ [x]) else ?bd,
       if ms = [] then Suc (length ls) else length (ls @ [x]) + length ms,
       ?db + of_nat (total_blocks ms) - of_nat (total_blocks (concat (map (pieces e) ms))),
       (new @ pieces e x) @ concat (map (pieces e) ms))"
  proof (rule Cons.IH)
    show "\<forall>x\<in>set ms. ExtentsOverlap x e" using Cons.prems(1) by simp
    show "sorted_wrt ExtentLess ((new @ pieces e x) @ concat (map (pieces e) ms))"
      using Cons.prems(2) by simp
  qed
  finally show ?case by (simp add: algebra_simps)
qed

lemma SubtractExtent_split:
  assumes wf: "well_formed m (ls @ ms @ rs)" and e: "proper e"
    and L: "\<forall>x\<in>set ls. gap False x e"
    and M: "\<forall>x\<in>set ms. \<not> gap False x e \<and> \<not> gap False e x"
    and R: "\<forall>x\<in>set rs. gap False e x"
  shows "SubtractExtent \<lparr>extent_set = ls @ ms @ rs, blocks = b, merge_touching_extents = m\<rparr> e =
         \<lparr>extent_set = ls @ concat (map (pieces e) ms) @ rs,
          blocks = b - (of_nat (total_blocks ms) -
                        of_nat (total_blocks (concat (map (pieces e) ms)))),
          merge_touching_extents = m\<rparr> \<and>
         well_formed m (ls @ concat (map (pieces e) ms) @ rs) \<and>
         covered (concat (map (pieces e) ms)) = covered ms - extent_blocks e"
proof -
  let ?xs = "ls @ ms @ rs"
  let ?np = "concat (map (pieces e) ms)"
  have pm: "\<forall>x\<in>set ms. proper x" and pl: "\<forall>x\<in>set ls. proper x" and pr: "\<forall>x\<in>set rs. proper x"
    using wf by (auto simp: well_formed_def)
  have om: "\<forall>x\<in>set ms. ExtentsOverlap x e" using M pm e by (simp add: overlap_iff_mid)
  have P: "\<forall>x\<in>set ms. well_formed True (pieces e x) \<and>
      (\<forall>p\<in>set (pieces e x). lo x \<le> lo p \<and> hi p \<le> hi x)"
    using pm M e sub_pieces_props(1,2) by (auto simp: not_le)
  have wfn: "well_formed m (ls @ ?np @ rs)" using wf P by (rule well_formed_refine)
  have cov: "covered ?np = covered ms - extent_blocks e"
    using pm M e sub_pieces_props(3) by (intro covered_concat) (auto simp: not_le)
  have sn: "sorted_wrt ExtentLess ([] @ ?np)"
    using well_formed_sorted_less [OF wfn] by (simp add: sorted_wrt_append)
  let ?st = "(if ms = [] then length ?xs else length ls,
            if ms = [] then length ?xs else length ls + length ms,
            0 + of_nat (total_blocks ms) - of_nat (total_blocks ?np) :: u64, [] @ ?np)"
  have "SubtractExtent_loop ?xs e 0 (length ?xs, length ?xs, 0, []) =
        SubtractExtent_loop ?xs e (length ls) (length ?xs, length ?xs, 0, [])"
  proof (rule sub_loop_skip)
    show "0 \<le> length ls" "length ls \<le> length ?xs" by simp_all
    fix i assume "0 \<le> i" "i < length ls"
    then have "?xs ! i \<in> set ls" by (simp add: nth_append)
    with L pl e show "\<not> ExtentsOverlap (?xs ! i) e" by (simp add: overlap_iff_mid)
  qed
  also have "\<dots> = SubtractExtent_loop ?xs e (length ls + length ms) ?st"
    using sub_loop_run [OF om sn, of ls rs "length ?xs" "length ?xs" 0] by simp
  also have "\<dots> = SubtractExtent_loop ?xs e (length ?xs) ?st"
  proof (rule sub_loop_skip)
    show "length ls + length ms \<le> length ?xs" "length ?xs \<le> length ?xs" by simp_all
    fix i assume i: "length ls + length ms \<le> i" "i < length ?xs"
    then have "?xs ! i = rs ! (i - length ls - length ms)"
      by (simp add: nth_append)
    moreover have "i - length ls - length ms < length rs" using i by simp
    ultimately have r: "?xs ! i \<in> set rs" by (metis nth_mem)
    with R pr e show "\<not> ExtentsOverlap (?xs ! i) e" by (simp add: overlap_iff_mid)
  qed
  also have "\<dots> = ?st" by (rule sub_loop_end) simp
  finally have loop: "SubtractExtent_loop ?xs e 0 (length ?xs, length ?xs, 0, []) =
      (if ms = [] then length ?xs else length ls,
       if ms = [] then length ?xs else length ls + length ms,
       of_nat (total_blocks ms) - of_nat (total_blocks ?np), ?np)"
    by simp
  have er: "erase ?xs (if ms = [] then length ?xs else length ls)
      (if ms = [] then length ?xs else length ls + length ms) = ls @ rs"
    by (simp del: length_append append_assoc)
  have ins: "fold set_insert ?np (ls @ rs) = ls @ ?np @ rs"
    by (rule fold_set_insert_middle) (rule well_formed_sorted_less [OF wfn])
  have s: "start_block e \<noteq> kSparseHole" "num_blocks e \<noteq> 0"
    using e by (simp_all add: proper_start proper_def)
  have "SubtractExtent \<lparr>extent_set = ?xs, blocks = b, merge_touching_extents = m\<rparr> e =
         \<lparr>extent_set = ls @ ?np @ rs,
          blocks = b - (of_nat (total_blocks ms) - of_nat (total_blocks ?np)),
          merge_touching_extents = m\<rparr>"
    unfolding SubtractExtent_def
    by (simp only: s loop er ins Let_def ExtentRanges.simps if_False simp_thms
        prod.case ExtentRanges.update_convs)
  with wfn cov show ?thesis by simp
qed


lemma SubtractExtent_proper:
  assumes ok: "ranges_ok s" and e: "proper e"
  shows "ranges_ok (SubtractExtent s e) \<and>
         merge_touching_extents (SubtractExtent s e) = merge_touching_extents s \<and>
         covered (extent_set (SubtractExtent s e)) = covered (extent_set s) - extent_blocks e"
proof -
  let ?m = "merge_touching_extents s"
  have wf: "well_formed ?m (extent_set s)" and bl: "unat (blocks s) = total_blocks (extent_set s)"
    using ok by (simp_all add: ranges_ok_def)
  from split3 [OF well_formed_weaken [OF wf] e, of False] obtain ls ms rs where
    xs: "extent_set s = ls @ ms @ rs" and L: "\<forall>x\<in>set ls. gap False x e"
    and M: "\<forall>x\<in>set ms. \<not> gap False x e \<and> \<not> gap False e x" and R: "\<forall>x\<in>set rs. gap False e x"
    by blast
  note wf' = wf [unfolded xs]
  let ?np = "concat (map (pieces e) ms)"
  let ?b = "blocks s - (of_nat (total_blocks ms) - of_nat (total_blocks ?np))"
  let ?s' = "\<lparr>extent_set = ls @ ?np @ rs, blocks = ?b, merge_touching_extents = ?m\<rparr>"
  have s: "s = \<lparr>extent_set = ls @ ms @ rs, blocks = blocks s, merge_touching_extents = ?m\<rparr>"
    using xs by simp
  from SubtractExtent_split [OF wf' e L M R, of "blocks s"]
  have sub: "SubtractExtent s e = ?s'" and wfn: "well_formed ?m (ls @ ?np @ rs)"
    and cov: "covered ?np = covered ms - extent_blocks e"
    using s by simp_all
  have "unat (blocks s - of_nat (total_blocks ms) + of_nat (total_blocks ?np)) =
      total_blocks ls + total_blocks ?np + total_blocks rs"
  proof (rule unat_blocks_eq)
    show "unat (blocks s) = total_blocks ls + total_blocks ms + total_blocks rs"
      using bl xs by simp
    show "total_blocks ls + total_blocks ?np + total_blocks rs < 2 ^ 64"
      using total_bound [OF wfn] by simp
  qed
  then have "unat ?b = total_blocks (ls @ ?np @ rs)" by (simp add: algebra_simps)
  then have ok': "ranges_ok ?s'" using wfn by (simp add: ranges_ok_def)
  have "covered ls \<inter> extent_blocks e = {}" "covered rs \<inter> extent_blocks e = {}"
    using L R by (fastforce simp: covered_def extent_blocks_def)+
  then have "covered (ls @ ?np @ rs) = covered (ls @ ms @ rs) - extent_blocks e"
    using cov by auto
  with ok' sub xs show ?thesis by simp
qed

subsection \<open>The invariants along a sequence of calls\<close>

lemma ranges_ok_invariant:
  assumes "ranges_ok s"
  shows "invariant s"
proof -
  let ?m = "merge_touching_extents s"
  let ?xs = "extent_set s"
  have wf: "well_formed ?m ?xs" and bl: "unat (blocks s) = total_blocks ?xs"
    using assms by (simp_all add: ranges_ok_def)
  have 1: "\<forall>e\<in>set ?xs. start_block e \<noteq> kSparseHole \<and> num_blocks e \<noteq> 0"
    using wf by (auto simp: well_formed_def proper_start proper_def)
  have 2: "sorted_wrt (\<lambda>a b. lo a < lo b \<and> extent_blocks a \<inter> extent_blocks b = {} \<and>
                   (?m \<longrightarrow> \<not> touching a b)) ?xs"
  proof (rule sorted_wrt_mono_rel [of ?xs "gap ?m"])
    show "sorted_wrt (gap ?m) ?xs" using wf by (simp add: well_formed_def)
    fix a b assume a: "a \<in> set ?xs" and b: "b \<in> set ?xs" and g: "gap ?m a b"
    have "lo a < hi a" "lo b < hi b" using wf a b by (auto simp: well_formed_def proper_lt)
    with g show "lo a < lo b \<and> extent_blocks a \<inter> extent_blocks b = {} \<and>
                   (?m \<longrightarrow> \<not> touching a b)"
      by (auto simp: gap_def extent_blocks_def touching_def split: if_splits)
  qed
  from 1 2 bl show ?thesis by (simp add: invariant_def)
qed

lemma invariant_bounded_ranges_ok:
  assumes "invariant s" "\<forall>e\<in>set (extent_set s). bounded e"
  shows "ranges_ok s"
proof -
  let ?m = "merge_touching_extents s"
  let ?xs = "extent_set s"
  have p: "\<forall>e\<in>set ?xs. proper e" using assms by (auto simp: invariant_def proper_def)
  have "sorted_wrt (gap ?m) ?xs"
  proof (rule sorted_wrt_mono_rel [of ?xs "\<lambda>a b. lo a < lo b \<and> extent_blocks a \<inter> extent_blocks b = {} \<and>
                   (?m \<longrightarrow> \<not> touching a b)"])
    show "sorted_wrt (\<lambda>a b. lo a < lo b \<and> extent_blocks a \<inter> extent_blocks b = {} \<and>
                   (?m \<longrightarrow> \<not> touching a b)) ?xs"
      using assms(1) by (simp add: invariant_def)
    fix a b assume a: "a \<in> set ?xs" and b: "b \<in> set ?xs"
      and g: "lo a < lo b \<and> extent_blocks a \<inter> extent_blocks b = {} \<and> (?m \<longrightarrow> \<not> touching a b)"
    have l: "lo a < hi a" "lo b < hi b" using p a b by (auto simp: proper_lt)
    have "hi a \<le> lo b"
    proof (rule ccontr)
      assume "\<not> hi a \<le> lo b"
      with g l have "lo b \<in> extent_blocks a \<inter> extent_blocks b"
        by (simp add: extent_blocks_def)
      with g show False by auto
    qed
    with g show "gap ?m a b" by (auto simp: gap_def touching_def)
  qed
  with p assms(1) show ?thesis by (simp add: ranges_ok_def well_formed_def invariant_def)
qed

lemma ranges_ok_iff: "ranges_ok s \<longleftrightarrow> invariant s \<and> (\<forall>e\<in>set (extent_set s). bounded e)"
proof
  assume ok: "ranges_ok s"
  then have "\<forall>e\<in>set (extent_set s). bounded e"
    by (simp add: ranges_ok_def well_formed_def proper_def)
  with ok show "invariant s \<and> (\<forall>e\<in>set (extent_set s). bounded e)"
    by (simp add: ranges_ok_invariant)
next
  assume "invariant s \<and> (\<forall>e\<in>set (extent_set s). bounded e)"
  then show "ranges_ok s" by (simp add: invariant_bounded_ranges_ok)
qed

lemma ranges_ok_empty: "ranges_ok (empty_ranges m)"
  by (simp add: ranges_ok_def empty_ranges_def)

lemma admissible_cases:
  assumes "admissible e"
  obtains "start_block e = kSparseHole \<or> num_blocks e = 0" | "proper e"
  using assms by (auto simp: admissible_def proper_def)

lemma AddExtent_admissible:
  assumes ok: "ranges_ok s" and e: "admissible e"
  shows "\<exists>s'. AddExtent s e = Inr s' \<and> ranges_ok s' \<and>
           merge_touching_extents s' = merge_touching_extents s \<and> AddExtent s' e = Inr s'"
  using e
proof (cases rule: admissible_cases)
  case 1
  then have "AddExtent s e = Inr s" by (simp add: AddExtent_def)
  with ok show ?thesis by simp
next
  case 2
  from AddExtent_proper [OF ok 2] show ?thesis by blast
qed

lemma SubtractExtent_admissible:
  assumes ok: "ranges_ok s" and e: "admissible e"
  shows "ranges_ok (SubtractExtent s e) \<and>
         merge_touching_extents (SubtractExtent s e) = merge_touching_extents s"
  using e
proof (cases rule: admissible_cases)
  case 1
  then have "SubtractExtent s e = s" by (simp add: SubtractExtent_def)
  with ok show ?thesis by simp
next
  case 2
  from SubtractExtent_proper [OF ok 2] show ?thesis by blast
qed

lemma apply_calls_ok:
  "ranges_ok s \<Longrightarrow> \<forall>c\<in>set calls. admissible (call_extent c) \<Longrightarrow>
   \<exists>s'. apply_calls s calls = Inr s' \<and> ranges_ok s'"
proof (induction calls arbitrary: s)
  case Nil
  then show ?case by simp
next
  case (Cons c calls)
  show ?case
  proof (cases c)
    case (Add e)
    with Cons.prems have "admissible e" by simp
    from AddExtent_admissible [OF Cons.prems(1) this] obtain s1 where
      s1: "AddExtent s e = Inr s1" "ranges_ok s1" by blast
    from Cons.IH [OF s1(2)] Cons.prems(2) obtain s' where
      "apply_calls s1 calls = Inr s'" "ranges_ok s'" by auto
    with s1 Add show ?thesis by simp
  next
    case (Subtract e)
    with Cons.prems have "admissible e" by simp
    from SubtractExtent_admissible [OF Cons.prems(1) this]
    have "ranges_ok (SubtractExtent s e)" by simp
    from Cons.IH [OF this] Cons.prems(2) Subtract show ?thesis by simp
  qed
qed

lemma AddExtents_calls: "AddExtents s es = apply_calls s (map Add es)"
  by (induction es arbitrary: s) (auto split: sum.splits)

lemma SubtractExtents_calls: "Inr (SubtractExtents s es) = apply_calls s (map Subtract es)"
  by (induction es arbitrary: s) auto

subsection \<open>Adding an extent that touches an entry\<close>









subsection \<open>ContainsBlock on a well-formed set\<close>

declare ContainsBlock_loop.simps [simp del]

lemma contains_loop:
  assumes "l \<le> u" "u \<le> length xs"
  shows "ContainsBlock_loop xs b l u =
         Inr (\<exists>i. l \<le> i \<and> i < u \<and> start_block (xs ! i) \<le> b \<and>
                  b < start_block (xs ! i) + num_blocks (xs ! i))"
  using assms(1)
proof (induction rule: inc_induct)
  case base
  show ?case by (subst ContainsBlock_loop.simps) auto
next
  case (step n)
  have n: "n \<noteq> u" "\<not> length xs \<le> n" using step(2) assms(2) by auto
  show ?case
  proof (cases "start_block (xs ! n) \<le> b \<and> b < start_block (xs ! n) + num_blocks (xs ! n)")
    case True
    then have "ContainsBlock_loop xs b n u = Inr True"
      using n by (subst ContainsBlock_loop.simps) simp
    moreover have "\<exists>i. n \<le> i \<and> i < u \<and> start_block (xs ! i) \<le> b \<and>
                  b < start_block (xs ! i) + num_blocks (xs ! i)"
      using True step(2) by auto
    ultimately show ?thesis by simp
  next
    case False
    then have "ContainsBlock_loop xs b n u = ContainsBlock_loop xs b (Suc n) u"
      using n by (subst ContainsBlock_loop.simps) auto
    moreover have "(\<exists>i. n \<le> i \<and> i < u \<and> start_block (xs ! i) \<le> b \<and>
                  b < start_block (xs ! i) + num_blocks (xs ! i)) \<longleftrightarrow>
        (\<exists>i. Suc n \<le> i \<and> i < u \<and> start_block (xs ! i) \<le> b \<and>
                  b < start_block (xs ! i) + num_blocks (xs ! i))"
      using False by (metis Suc_leD Suc_leI le_neq_implies_less)
    ultimately show ?thesis using step.IH by simp
  qed
qed

lemma lower_bound_nth_less:
  assumes "i < lower_bound xs v"
  shows "ExtentLess (xs ! i) v"
proof -
  let ?t = "takeWhile (\<lambda>y. ExtentLess y v) xs"
  have "?t ! i \<in> set ?t" using assms by (simp add: lower_bound_def)
  then have "ExtentLess (?t ! i) v" by (auto dest: set_takeWhileD)
  moreover have "?t ! i = xs ! i" using assms by (simp add: lower_bound_def takeWhile_nth)
  ultimately show ?thesis by simp
qed

lemma lower_bound_ge:
  assumes "j \<le> length xs" "\<And>i. i < j \<Longrightarrow> ExtentLess (xs ! i) v"
  shows "j \<le> lower_bound xs v"
  unfolding lower_bound_def using assms by (intro length_takeWhile_less_P_nth) auto

lemma contains_word_iff:
  assumes "proper x"
  shows "start_block x \<le> b \<and> b < start_block x + num_blocks x \<longleftrightarrow>
         unat b \<in> extent_blocks x"
  using assms
  by (simp add: word_le_nat_alt word_less_nat_alt end_unat proper_bounded extent_blocks_def
      lo_def [symmetric])

lemma ContainsBlock_ok:
  assumes ok: "ranges_ok s" and b: "block \<noteq> kSparseHole"
  shows "ContainsBlock s block = Inr (unat block \<in> covered (extent_set s))"
proof -
  let ?xs = "extent_set s"
  let ?m = "merge_touching_extents s"
  let ?lb = "lower_bound ?xs (ExtentForRange block 1)"
  let ?l = "if ?lb \<noteq> 0 then ?lb - 1 else ?lb"
  let ?u = "lower_bound ?xs (ExtentForRange (block + 1) 0)"
  have wf: "well_formed ?m ?xs" using ok by (simp add: ranges_ok_def)
  have b1: "unat (block + 1) = unat block + 1"
  proof -
    have "unat block \<noteq> 2 ^ 64 - 1" using b by (simp add: word_unat_eq_iff unat_hole)
    moreover have "unat block < 2 ^ 64" using unsigned_less [of block] by simp
    ultimately have "unat block + unat (1 :: u64) < 2 ^ 64" by simp
    then show ?thesis by (simp add: unat_add_lem [THEN iffD1])
  qed
  have P1: "ExtentLess x (ExtentForRange block 1) \<longleftrightarrow> lo x < unat block" if "proper x" for x
  proof -
    have "unat (num_blocks x) \<noteq> 0" using that by (simp add: proper_def unat_eq_0)
    then have "\<not> num_blocks x < 1" by (simp add: word_less_nat_alt)
    then show ?thesis by (auto simp: ExtentLess_def lo_def word_less_nat_alt)
  qed
  have P2: "ExtentLess x (ExtentForRange (block + 1) 0) \<longleftrightarrow> lo x \<le> unat block" for x
    by (auto simp: ExtentLess_def lo_def word_less_nat_alt b1 word_unat_eq_iff)
  have px: "proper (?xs ! i)" if "i < length ?xs" for i
    using wf that by (auto intro: well_formed_proper)
  have lbu: "?lb \<le> ?u"
  proof (rule lower_bound_ge [OF lower_bound_le])
    fix i assume i: "i < ?lb"
    then have "i < length ?xs" using lower_bound_le [of ?xs "ExtentForRange block 1"] by simp
    with lower_bound_nth_less [OF i] show "ExtentLess (?xs ! i) (ExtentForRange (block + 1) 0)"
      by (simp add: P1 P2 px)
  qed
  then have lu: "?l \<le> ?u" by (simp split: if_splits) arith
  have un: "?u \<le> length ?xs" by (rule lower_bound_le)
  have "(\<exists>i. ?l \<le> i \<and> i < ?u \<and> start_block (?xs ! i) \<le> block \<and>
            block < start_block (?xs ! i) + num_blocks (?xs ! i)) \<longleftrightarrow>
        unat block \<in> covered ?xs"
  proof
    assume "\<exists>i. ?l \<le> i \<and> i < ?u \<and> start_block (?xs ! i) \<le> block \<and>
            block < start_block (?xs ! i) + num_blocks (?xs ! i)"
    then obtain i where i: "i < ?u" "start_block (?xs ! i) \<le> block \<and>
            block < start_block (?xs ! i) + num_blocks (?xs ! i)" by blast
    then have il: "i < length ?xs" using un by simp
    with i(2) have "unat block \<in> extent_blocks (?xs ! i)" by (simp add: contains_word_iff px)
    with il show "unat block \<in> covered ?xs" by (auto simp: covered_def)
  next
    assume "unat block \<in> covered ?xs"
    then obtain i where il: "i < length ?xs" and c: "unat block \<in> extent_blocks (?xs ! i)"
      by (auto simp: covered_def in_set_conv_nth)
    then have lo: "lo (?xs ! i) \<le> unat block" and hi: "unat block < hi (?xs ! i)"
      by (simp_all add: extent_blocks_def)
    have w: "start_block (?xs ! i) \<le> block \<and>
            block < start_block (?xs ! i) + num_blocks (?xs ! i)"
      using c il by (simp add: contains_word_iff px)
    have iu: "Suc i \<le> ?u"
    proof (rule lower_bound_ge)
      show "Suc i \<le> length ?xs" using il by simp
      fix k assume k: "k < Suc i"
      have "lo (?xs ! k) \<le> lo (?xs ! i)"
      proof (cases "k = i")
        case False
        with k have "gap ?m (?xs ! k) (?xs ! i)" using il by (intro well_formed_nth_gap [OF wf]) auto
        then show ?thesis using lo_le_hi [of "?xs ! k"] by (auto dest: gap_weaken)
      qed simp
      with lo show "ExtentLess (?xs ! k) (ExtentForRange (block + 1) 0)" by (simp add: P2)
    qed
    have li: "?l \<le> i"
    proof (rule ccontr)
      assume "\<not> ?l \<le> i"
      then have si: "Suc i < ?lb" by (auto split: if_splits)
      then have sl: "Suc i < length ?xs"
        using lower_bound_le [of ?xs "ExtentForRange block 1"] by simp
      from lower_bound_nth_less [OF si] have "lo (?xs ! Suc i) < unat block"
        by (simp add: P1 px sl)
      moreover have "gap ?m (?xs ! i) (?xs ! Suc i)"
        using sl by (intro well_formed_nth_gap [OF wf]) auto
      ultimately show False using hi by (auto dest: gap_weaken)
    qed
    from iu have "i < ?u" by simp
    with li w show "\<exists>i. ?l \<le> i \<and> i < ?u \<and> start_block (?xs ! i) \<le> block \<and>
            block < start_block (?xs ! i) + num_blocks (?xs ! i)"
      by blast
  qed
  then show ?thesis
    unfolding ContainsBlock_def Let_def
    by (simp only: contains_loop [OF lu un])
qed

lemma covered_word_iff:
  assumes "ranges_ok s"
  shows "unat block \<in> covered (extent_set s) \<longleftrightarrow>
         (\<exists>E\<in>set (extent_set s). start_block E \<le> block \<and>
            block < start_block E + num_blocks E)"
proof -
  have "\<forall>E\<in>set (extent_set s). proper E"
    using assms by (simp add: ranges_ok_def well_formed_def)
  then show ?thesis by (auto simp: covered_def contains_word_iff)
qed

subsection \<open>GetExtentsForBlockCount on a set that satisfies the invariants\<close>

lemma fold_plus_total:
  "fold (\<lambda>extent sum. sum + num_blocks extent) es (a :: u64) = a + of_nat (total_blocks es)"
proof (induction es arbitrary: a)
  case Nil
  show ?case by simp
next
  case (Cons x es)
  show ?case by (simp add: Cons.IH add.assoc)
qed

lemma BlocksInExtents_total: "BlocksInExtents es = of_nat (total_blocks es)"
  by (simp add: BlocksInExtents_def fold_plus_total)

lemma get_loop:
  assumes "ob < count" "unat count - unat ob \<le> total_blocks ys"
  shows "\<exists>k r. k < length ys \<and> 0 < r \<and> r \<le> unat (num_blocks (ys ! k)) \<and>
           GetExtentsForBlockCount_loop count ys (out, ob) =
             (out @ take k ys @ [(ys ! k)\<lparr>num_blocks := of_nat r\<rparr>], count) \<and>
           total_blocks (take k ys) + r = unat count - unat ob"
  using assms
proof (induction ys arbitrary: out ob)
  case Nil
  then show ?case by (simp add: word_less_nat_alt)
next
  case (Cons x rest)
  define nd where "nd = unat count - unat ob"
  have lt: "unat ob < unat count" using Cons.prems(1) by (simp add: word_less_nat_alt)
  have nd: "unat (count - ob) = nd" using Cons.prems(1) by (simp add: unat_sub nd_def)
  have "count - ob = of_nat (unat (count - ob))" by simp
  then have ndw: "of_nat nd = count - ob" by (simp only: nd)
  have nd0: "0 < nd" using lt by (simp add: nd_def)
  consider "unat (num_blocks x) < nd" | "unat (num_blocks x) = nd" | "nd < unat (num_blocks x)"
    by linarith
  then have "\<exists>k r. k < length (x # rest) \<and> 0 < r \<and> r \<le> unat (num_blocks ((x # rest) ! k)) \<and>
           GetExtentsForBlockCount_loop count (x # rest) (out, ob) =
             (out @ take k (x # rest) @ [((x # rest) ! k)\<lparr>num_blocks := of_nat r\<rparr>], count) \<and>
           total_blocks (take k (x # rest)) + r = nd"
  proof cases
    case 1
    have c: "unat count < 2 ^ 64" using unsigned_less [of count] by simp
    with 1 lt have ub: "unat (ob + num_blocks x) = unat ob + unat (num_blocks x)"
      by (simp add: unat_add_lem [THEN iffD1] nd_def)
    with 1 lt have p1: "ob + num_blocks x < count" by (simp add: word_less_nat_alt nd_def)
    have p2: "unat count - unat (ob + num_blocks x) \<le> total_blocks rest"
      using Cons.prems(2) ub by simp
    from Cons.IH [OF p1 p2, of "out @ [x]"] obtain k r where
      k: "k < length rest" "0 < r" "r \<le> unat (num_blocks (rest ! k))"
      and l: "GetExtentsForBlockCount_loop count rest (out @ [x], ob + num_blocks x) =
             ((out @ [x]) @ take k rest @ [(rest ! k)\<lparr>num_blocks := of_nat r\<rparr>], count)"
      and t: "total_blocks (take k rest) + r = unat count - unat (ob + num_blocks x)"
      by blast
    have "num_blocks x < count - ob" using 1 nd by (simp add: word_less_nat_alt)
    then have "GetExtentsForBlockCount_loop count (x # rest) (out, ob) =
        GetExtentsForBlockCount_loop count rest (out @ [x], ob + num_blocks x)"
      by (simp add: Let_def)
    also have "\<dots> = (out @ take (Suc k) (x # rest) @
        [((x # rest) ! Suc k)\<lparr>num_blocks := of_nat r\<rparr>], count)"
      unfolding l by simp
    finally have g: "GetExtentsForBlockCount_loop count (x # rest) (out, ob) =
        (out @ take (Suc k) (x # rest) @
        [((x # rest) ! Suc k)\<lparr>num_blocks := of_nat r\<rparr>], count)" .
    have t': "total_blocks (take (Suc k) (x # rest)) + r = nd"
      using t ub 1 by (simp add: nd_def)
    have "Suc k < length (x # rest)" using k(1) by simp
    moreover have "r \<le> unat (num_blocks ((x # rest) ! Suc k))" using k(3) by simp
    ultimately show ?thesis using k(2) g t' by blast
  next
    case 2
    then have e: "num_blocks x = count - ob" using nd by (simp add: word_unat_eq_iff)
    then have "GetExtentsForBlockCount_loop count (x # rest) (out, ob) = (out @ [x], count)"
      by (simp add: Let_def)
    moreover have "x\<lparr>num_blocks := of_nat nd\<rparr> = x"
      by (simp only: ndw e [symmetric]) simp
    ultimately have g: "GetExtentsForBlockCount_loop count (x # rest) (out, ob) =
        (out @ take 0 (x # rest) @ [((x # rest) ! 0)\<lparr>num_blocks := of_nat nd\<rparr>], count)"
      by simp
    have "0 < length (x # rest)" "nd \<le> unat (num_blocks ((x # rest) ! 0))"
      "total_blocks (take 0 (x # rest)) + nd = nd"
      using 2 by simp_all
    with nd0 g show ?thesis by blast
  next
    case 3
    then have "\<not> num_blocks x < count - ob" "num_blocks x \<noteq> count - ob"
      using nd by (auto simp: word_less_nat_alt)
    then have "GetExtentsForBlockCount_loop count (x # rest) (out, ob) =
        (out @ [x\<lparr>num_blocks := count - ob\<rparr>], count)"
      by (simp add: Let_def)
    then have g: "GetExtentsForBlockCount_loop count (x # rest) (out, ob) =
        (out @ take 0 (x # rest) @ [((x # rest) ! 0)\<lparr>num_blocks := of_nat nd\<rparr>], count)"
      by (simp only: ndw) simp
    have "0 < length (x # rest)" "nd \<le> unat (num_blocks ((x # rest) ! 0))"
      "total_blocks (take 0 (x # rest)) + nd = nd"
      using 3 by simp_all
    with nd0 g show ?thesis by blast
  qed
  then show ?case by (simp only: nd_def)
qed

lemma GetExtentsForBlockCount_ok:
  assumes inv: "invariant s" and n: "0 < n" "n \<le> blocks s"
  shows "\<exists>out. GetExtentsForBlockCount s n = Inr out \<and>
           sorted_wrt (\<lambda>a b. lo a < lo b) out \<and> total_blocks out = unat n \<and>
           (\<forall>p\<in>set out. \<exists>x\<in>set (extent_set s).
              start_block p = start_block x \<and> num_blocks p \<noteq> 0 \<and>
              num_blocks p \<le> num_blocks x \<and> extent_blocks p \<subseteq> extent_blocks x)"
proof -
  let ?xs = "extent_set s"
  have bl: "unat (blocks s) = total_blocks ?xs"
    and nz: "\<forall>e\<in>set ?xs. num_blocks e \<noteq> 0"
    using inv by (simp_all add: invariant_def)
  have so: "sorted_wrt (\<lambda>a b. lo a < lo b) ?xs"
  proof (rule sorted_wrt_mono_rel)
    show "sorted_wrt (\<lambda>a b. lo a < lo b \<and> extent_blocks a \<inter> extent_blocks b = {} \<and>
                   (merge_touching_extents s \<longrightarrow> \<not> touching a b)) ?xs"
      using inv by (simp add: invariant_def)
  qed simp
  have "unat n - unat (0 :: u64) \<le> total_blocks ?xs"
    using n(2) bl by (simp add: word_le_nat_alt)
  from get_loop [OF n(1) this, of "[]"] obtain k r where
    k: "k < length ?xs" "0 < r" "r \<le> unat (num_blocks (?xs ! k))"
    and loop: "GetExtentsForBlockCount_loop n ?xs ([], 0) =
             (take k ?xs @ [(?xs ! k)\<lparr>num_blocks := of_nat r\<rparr>], n)"
    and tot: "total_blocks (take k ?xs) + r = unat n"
    by auto
  let ?y = "(?xs ! k)\<lparr>num_blocks := of_nat r\<rparr>"
  let ?out = "take k ?xs @ [?y]"
  have "unat (num_blocks (?xs ! k)) < 2 ^ 64"
    using unsigned_less [of "num_blocks (?xs ! k)"] by simp
  with k(3) have r64: "r < 2 ^ 64" by simp
  then have ur: "unat (of_nat r :: u64) = r" by (simp add: of_nat_inverse)
  have t: "total_blocks ?out = unat n" using tot ur by simp
  then have "BlocksInExtents ?out = n" by (simp only: BlocksInExtents_total) simp
  then have res: "GetExtentsForBlockCount s n = Inr ?out"
    using n loop by (simp add: GetExtentsForBlockCount_def)
  have "map lo ?out = map lo (take (Suc k) ?xs)"
    using k(1) by (simp add: take_Suc_conv_app_nth lo_def)
  moreover have "sorted_wrt (<) (map lo (take (Suc k) ?xs))"
    using so by (simp add: sorted_wrt_map sorted_wrt_take)
  ultimately have "sorted_wrt (<) (map lo ?out)" by simp
  then have s: "sorted_wrt (\<lambda>a b. lo a < lo b) ?out" by (simp only: sorted_wrt_map)
  have sub: "\<exists>x\<in>set ?xs. start_block p = start_block x \<and> num_blocks p \<noteq> 0 \<and>
              num_blocks p \<le> num_blocks x \<and> extent_blocks p \<subseteq> extent_blocks x"
    if o: "p \<in> set ?out" for p
  proof (cases "p = ?y")
    case True
    have "?xs ! k \<in> set ?xs" using k(1) by simp
    moreover have "num_blocks ?y \<noteq> 0" using k(2) ur by (simp add: unat_eq_0 [symmetric])
    moreover have "num_blocks ?y \<le> num_blocks (?xs ! k)" using k(3) ur by (simp add: word_le_nat_alt)
    moreover have "extent_blocks ?y \<subseteq> extent_blocks (?xs ! k)"
      using k(3) ur by (simp add: extent_blocks_def lo_def hi_def)
    ultimately show ?thesis using True by (intro bexI [of _ "?xs ! k"]) simp_all
  next
    case False
    with o have "p \<in> set (take k ?xs)" by simp
    then have "p \<in> set ?xs" by (rule in_set_takeD)
    with nz show ?thesis by (intro bexI [of _ p]) simp_all
  qed
  from res s t sub show ?thesis by blast
qed

subsection \<open>FilterExtentRanges against a well-formed set\<close>

declare FilterExtentRanges_loop.simps [simp del]

lemma card_meet:
  assumes "\<forall>p\<in>C. d \<le> p"
  shows "card ({a..<b} \<inter> ({c..<d} \<union> C)) =
         (min b d - max a c) + card ({max a d..<b} \<inter> C)"
proof -
  have "{a..<b} \<inter> ({c..<d} \<union> C) = {max a c..<min b d} \<union> ({max a d..<b} \<inter> C)"
    using assms by auto
  moreover have "{max a c..<min b d} \<inter> ({max a d..<b} \<inter> C) = {}" by auto
  moreover have "finite {max a c..<min b d}" "finite ({max a d..<b} \<inter> C)" by simp_all
  ultimately show ?thesis by (simp add: card_Un_disjoint)
qed

lemma overlap_bounded_proper:
  assumes e: "bounded ext" and x: "proper x"
  shows "ExtentsOverlap ext x \<longleftrightarrow>
         (if lo ext = lo x then lo ext < hi ext
          else if lo ext < lo x then lo x < hi ext else lo ext < hi x)"
proof -
  have sx: "start_block x \<noteq> kSparseHole" using x by (rule proper_start)
  have ee: "unat (start_block ext + num_blocks ext) = hi ext" using e by (rule end_unat)
  have ex: "unat (start_block x + num_blocks x) = hi x" using x by (simp add: end_unat proper_bounded)
  have n0: "num_blocks ext \<noteq> 0 \<longleftrightarrow> lo ext < hi ext"
    by (simp add: lo_def hi_def unat_gt_0)
  have hole: "start_block ext = kSparseHole \<Longrightarrow> \<not> lo ext < hi x"
    using proper_hi [OF x] by (simp add: hole_iff)
  have hole': "start_block ext = kSparseHole \<Longrightarrow> \<not> lo ext < lo x"
    using proper_hi [OF x] proper_lt [OF x] by (simp add: hole_iff)
  show ?thesis
    unfolding ExtentsOverlap_def
    using sx hole hole'
    by (auto simp: start_eq_iff start_less_iff word_less_nat_alt ee ex n0 lo_def [symmetric])
qed

lemma filter_loop:
  assumes "well_formed False ys" "bounded ext"
  shows "\<exists>res' ext'. FilterExtentRanges_loop (pre @ ys @ post) (length pre)
             (length pre + length ys) (res, ext) = Inr (res', ext') \<and>
           total_blocks res' + unat (num_blocks ext') +
             card (extent_blocks ext \<inter> covered ys) =
           total_blocks res + unat (num_blocks ext)"
  using assms
proof (induction ys arbitrary: pre res ext)
  case Nil
  show ?case by (subst FilterExtentRanges_loop.simps) simp
next
  case (Cons x ys)
  let ?xs = "pre @ (x # ys) @ post"
  let ?u = "length pre + length (x # ys)"
  define a b c d where "a = lo ext" and "b = hi ext" and "c = lo x" and "d = hi x"
  have px: "proper x" and wf: "well_formed False ys" and gx: "\<forall>y\<in>set ys. hi x \<le> lo y"
    using Cons.prems(1) by (simp_all add: well_formed_Cons)
  have cd: "c < d" and d64: "d < 2 ^ 64"
    using proper_lt [OF px] proper_hi [OF px] by (simp_all add: c_def d_def)
  have ab: "a \<le> b" and b64: "b < 2 ^ 64"
    using Cons.prems(2) by (simp_all add: a_def b_def lo_le_hi bounded_def unat_hole)
  have C: "\<forall>p\<in>covered ys. d \<le> p"
    using gx by (auto simp: covered_def extent_blocks_def d_def)
  have A: "extent_blocks ext = {a..<b}" and X: "extent_blocks x = {c..<d}"
    by (simp_all add: extent_blocks_def a_def b_def c_def d_def)
  have size: "unat (num_blocks ext) = b - a" by (simp add: a_def b_def lo_def hi_def)
  have nx: "?xs ! length pre = x" by simp
  have it: "length pre \<noteq> ?u" "\<not> length ?xs \<le> length pre" by simp_all
  have xs': "?xs = (pre @ [x]) @ ys @ post" "Suc (length pre) = length (pre @ [x])"
    "?u = length (pre @ [x]) + length ys" by simp_all
  note ov = overlap_bounded_proper [OF Cons.prems(2) px, folded a_def b_def c_def d_def]
  have ee: "unat (start_block ext + num_blocks ext) = b"
    using Cons.prems(2) by (simp add: end_unat b_def)
  have ex: "unat (start_block x + num_blocks x) = d"
    using px by (simp add: end_unat proper_bounded d_def)
  have sa: "unat (start_block ext) = a" and sc: "unat (start_block x) = c"
    by (simp_all add: a_def c_def lo_def)
  have cov: "covered (x # ys) = {c..<d} \<union> covered ys" by (simp add: X)
  show ?case
  proof (cases "ExtentsOverlap ext x")
    case False
    then have dis: "min b d - max a c = 0" using ov ab cd by (auto split: if_splits)
    have "FilterExtentRanges_loop ?xs (length pre) ?u (res, ext) =
        FilterExtentRanges_loop ?xs (Suc (length pre)) ?u (res, ext)"
      using False it by (subst FilterExtentRanges_loop.simps) (simp only: nx if_False if_True simp_thms)
    also have "\<dots> = FilterExtentRanges_loop ((pre @ [x]) @ ys @ post) (length (pre @ [x]))
        (length (pre @ [x]) + length ys) (res, ext)"
      by (simp only: xs')
    finally have l: "FilterExtentRanges_loop ?xs (length pre) ?u (res, ext) =
        FilterExtentRanges_loop ((pre @ [x]) @ ys @ post) (length (pre @ [x]))
        (length (pre @ [x]) + length ys) (res, ext)" .
    from Cons.IH [OF wf Cons.prems(2), of "pre @ [x]" res] obtain res' ext' where
      r: "FilterExtentRanges_loop ((pre @ [x]) @ ys @ post) (length (pre @ [x]))
        (length (pre @ [x]) + length ys) (res, ext) = Inr (res', ext')"
      and t: "total_blocks res' + unat (num_blocks ext') + card (extent_blocks ext \<inter> covered ys) =
           total_blocks res + unat (num_blocks ext)"
      by blast
    have "card ({a..<b} \<inter> ({c..<d} \<union> covered ys)) = card ({a..<b} \<inter> covered ys)"
    proof -
      have "{a..<b} \<inter> {c..<d} = {}" using dis by auto
      then have "{a..<b} \<inter> ({c..<d} \<union> covered ys) = {a..<b} \<inter> covered ys" by auto
      then show ?thesis by simp
    qed
    with t have "total_blocks res' + unat (num_blocks ext') +
        card (extent_blocks ext \<inter> covered (x # ys)) = total_blocks res + unat (num_blocks ext)"
      by (simp only: cov A)
    with l r show ?thesis by (simp only: ex_simps) blast
  next
    case True
    have extent_A: "extent_blocks e' = {d..<b}" "bounded e'" "unat (num_blocks e') = b - d"
      if "lo e' = d" "hi e' = b" for e'
      using that b64 by (simp_all add: extent_blocks_def bounded_def unat_hole hi_def lo_def)
    show ?thesis
    proof (cases "start_block x \<le> start_block ext")
      case le: True
      then have ca: "c \<le> a" by (simp add: word_le_nat_alt sa sc)
      with True ov cd have ad: "a < d" by (auto split: if_splits)
      then have "start_block ext \<le> start_block x + num_blocks x"
        by (simp add: word_le_nat_alt sa ex)
      then have cut: "unat (start_block x + num_blocks x - start_block ext) = d - a"
        by (simp add: unat_sub sa ex)
      show ?thesis
      proof (cases "num_blocks ext \<le> start_block x + num_blocks x - start_block ext")
        case True
        then have bd: "b \<le> d" using ad ab by (simp add: word_le_nat_alt cut size)
        have "FilterExtentRanges_loop ?xs (length pre) ?u (res, ext) =
            Inr (res, ext\<lparr>num_blocks := 0\<rparr>)"
          using \<open>ExtentsOverlap ext x\<close> le True it
          by (subst FilterExtentRanges_loop.simps) (simp add: nx Let_def)
        moreover have "card ({a..<b} \<inter> ({c..<d} \<union> covered ys)) = b - a"
          using ca bd ab by (simp add: card_meet [OF C] min_def max_def)
        ultimately show ?thesis by (simp add: X A size)
      next
        case False
        then have db: "d < b" using ad ab by (simp add: word_le_nat_alt cut size)
        let ?cut = "start_block x + num_blocks x - start_block ext"
        let ?e' = "ExtentForRange (start_block ext + ?cut) (num_blocks ext - ?cut)"
        have "?cut \<le> num_blocks ext" using False by simp
        then have "unat (num_blocks ext - ?cut) = (b - a) - (d - a)"
          by (simp add: unat_sub cut size)
        moreover have "start_block ext + ?cut = start_block x + num_blocks x" by simp
        ultimately have e': "lo ?e' = d" "hi ?e' = b" using ad db by (simp_all add: ex)
        have "FilterExtentRanges_loop ?xs (length pre) ?u (res, ext) =
            FilterExtentRanges_loop ?xs (Suc (length pre)) ?u (res, ?e')"
          using \<open>ExtentsOverlap ext x\<close> le False it
          by (subst FilterExtentRanges_loop.simps) (simp add: nx Let_def)
        also have "\<dots> = FilterExtentRanges_loop ((pre @ [x]) @ ys @ post) (length (pre @ [x]))
            (length (pre @ [x]) + length ys) (res, ?e')"
          by (simp only: xs')
        finally have l: "FilterExtentRanges_loop ?xs (length pre) ?u (res, ext) =
            FilterExtentRanges_loop ((pre @ [x]) @ ys @ post) (length (pre @ [x]))
            (length (pre @ [x]) + length ys) (res, ?e')" .
        from Cons.IH [OF wf extent_A(2) [OF e'], of "pre @ [x]" res] obtain res' ext' where
          r: "FilterExtentRanges_loop ((pre @ [x]) @ ys @ post) (length (pre @ [x]))
            (length (pre @ [x]) + length ys) (res, ?e') = Inr (res', ext')"
          and t: "total_blocks res' + unat (num_blocks ext') + card ({d..<b} \<inter> covered ys) =
               total_blocks res + (b - d)"
          unfolding extent_A(1) [OF e'] extent_A(3) [OF e'] by blast
        have "card ({a..<b} \<inter> ({c..<d} \<union> covered ys)) =
            (d - a) + card ({d..<b} \<inter> covered ys)"
          using ca ad db by (simp add: card_meet [OF C] min_def max_def)
        with t have "total_blocks res' + unat (num_blocks ext') +
            card (extent_blocks ext \<inter> covered (x # ys)) = total_blocks res + unat (num_blocks ext)"
          using ad db by (simp add: X A size)
        with l r show ?thesis by (simp only: ex_simps) blast
      qed
    next
      case nle: False
      then have ac: "a < c" by (simp add: word_le_nat_alt sa sc)
      with True ov have cb: "c < b" by (auto split: if_splits)
      let ?piece = "ExtentForRange (start_block ext) (start_block x - start_block ext)"
      have "start_block ext \<le> start_block x" using ac by (simp add: word_le_nat_alt sa sc)
      then have pc: "unat (start_block x - start_block ext) = c - a"
        by (simp add: unat_sub sa sc)
      show ?thesis
      proof (cases "start_block ext + num_blocks ext \<le> start_block x + num_blocks x")
        case True
        then have bd: "b \<le> d" by (simp add: word_le_nat_alt ee ex)
        have "FilterExtentRanges_loop ?xs (length pre) ?u (res, ext) =
            Inr (res @ [?piece], ext\<lparr>num_blocks := 0\<rparr>)"
          using \<open>ExtentsOverlap ext x\<close> nle True it
          by (subst FilterExtentRanges_loop.simps) (simp add: nx Let_def)
        moreover have "card ({a..<b} \<inter> ({c..<d} \<union> covered ys)) = b - c"
          using ac cb bd by (simp add: card_meet [OF C] min_def max_def)
        ultimately show ?thesis using ac cb by (simp add: X A size pc)
      next
        case False
        then have db: "d < b" by (simp add: word_le_nat_alt ee ex)
        let ?ns = "start_block x + num_blocks x"
        let ?oe = "start_block ext + num_blocks ext"
        let ?e' = "ExtentForRange ?ns (?oe - ?ns)"
        have "?ns \<le> ?oe" using db by (simp add: word_le_nat_alt ee ex)
        then have "unat (?oe - ?ns) = b - d" by (simp add: unat_sub ee ex)
        then have e': "lo ?e' = d" "hi ?e' = b" using db by (simp_all add: ex)
        have "FilterExtentRanges_loop ?xs (length pre) ?u (res, ext) =
            FilterExtentRanges_loop ?xs (Suc (length pre)) ?u (res @ [?piece], ?e')"
          using \<open>ExtentsOverlap ext x\<close> nle False it
          by (subst FilterExtentRanges_loop.simps) (simp add: nx Let_def)
        also have "\<dots> = FilterExtentRanges_loop ((pre @ [x]) @ ys @ post) (length (pre @ [x]))
            (length (pre @ [x]) + length ys) (res @ [?piece], ?e')"
          by (simp only: xs')
        finally have l: "FilterExtentRanges_loop ?xs (length pre) ?u (res, ext) =
            FilterExtentRanges_loop ((pre @ [x]) @ ys @ post) (length (pre @ [x]))
            (length (pre @ [x]) + length ys) (res @ [?piece], ?e')" .
        from Cons.IH [OF wf extent_A(2) [OF e'], of "pre @ [x]" "res @ [?piece]"]
        obtain res' ext' where
          r: "FilterExtentRanges_loop ((pre @ [x]) @ ys @ post) (length (pre @ [x]))
            (length (pre @ [x]) + length ys) (res @ [?piece], ?e') = Inr (res', ext')"
          and t: "total_blocks res' + unat (num_blocks ext') + card ({d..<b} \<inter> covered ys) =
               total_blocks (res @ [?piece]) + (b - d)"
          unfolding extent_A(1) [OF e'] extent_A(3) [OF e'] by blast
        have "card ({a..<b} \<inter> ({c..<d} \<union> covered ys)) =
            (d - c) + card ({d..<b} \<inter> covered ys)"
          using ac cd db by (simp add: card_meet [OF C] min_def max_def)
        with t have "total_blocks res' + unat (num_blocks ext') +
            card (extent_blocks ext \<inter> covered (x # ys)) = total_blocks res + unat (num_blocks ext)"
          using ac cd db by (simp add: X A size pc)
        with l r show ?thesis by (simp only: ex_simps) blast
      qed
    qed
  qed
qed

lemma lower_bound_nth_not:
  "lower_bound xs v < length xs \<Longrightarrow> \<not> ExtentLess (xs ! lower_bound xs v) v"
  unfolding lower_bound_def by (rule nth_length_takeWhile)

lemma filter_one:
  assumes wf: "well_formed False xs" and e: "bounded e"
  shows "\<exists>res' ext'. FilterExtentRanges_loop xs
             (if lower_bound xs e \<noteq> 0 then lower_bound xs e - 1 else lower_bound xs e)
             (lower_bound xs (ExtentForRange (start_block e + num_blocks e) 0))
             (res, e) = Inr (res', ext') \<and>
           total_blocks res' + unat (num_blocks ext') +
             card (extent_blocks e \<inter> covered xs) =
           total_blocks res + unat (num_blocks e)"
proof -
  define lb where "lb = lower_bound xs e"
  define l where "l = (if lb \<noteq> 0 then lb - 1 else lb)"
  define u where "u = lower_bound xs (ExtentForRange (start_block e + num_blocks e) 0)"
  have ee: "unat (start_block e + num_blocks e) = hi e" using e by (rule end_unat)
  have Pu: "ExtentLess y (ExtentForRange (start_block e + num_blocks e) 0) \<longleftrightarrow> lo y < hi e" for y
    by (auto simp: ExtentLess_def word_less_nat_alt ee lo_def word_unat_eq_iff)
  have Pl: "ExtentLess y e \<Longrightarrow> lo y \<le> lo e \<and> lo y < hi e" for y
    by (auto simp: ExtentLess_def word_less_nat_alt lo_def hi_def word_unat_eq_iff
        split: if_splits)
  have lbn: "lb \<le> length xs" and un: "u \<le> length xs"
    by (simp_all add: lb_def u_def lower_bound_le)
  have lbu: "lb \<le> u"
    unfolding u_def
  proof (rule lower_bound_ge [OF lbn])
    fix i assume "i < lb"
    then have "ExtentLess (xs ! i) e" unfolding lb_def by (rule lower_bound_nth_less)
    then show "ExtentLess (xs ! i) (ExtentForRange (start_block e + num_blocks e) 0)"
      by (simp add: Pu Pl)
  qed
  then have lu: "l \<le> u" unfolding l_def by (simp split: if_splits) arith
  let ?pre = "take l xs" and ?ys = "drop l (take u xs)" and ?post = "drop u xs"
  have xs: "xs = ?pre @ ?ys @ ?post"
  proof -
    have "take u xs = take l (take u xs) @ drop l (take u xs)"
      by (rule append_take_drop_id [symmetric])
    also have "take l (take u xs) = take l xs" using lu by (simp add: min_def)
    finally have "take u xs = take l xs @ drop l (take u xs)" .
    then have "take u xs @ drop u xs = (take l xs @ drop l (take u xs)) @ drop u xs" by simp
    then show ?thesis by simp
  qed
  have len: "length ?pre = l" "l + length ?ys = u" using lu un by simp_all
  have wf3: "well_formed False (?pre @ ?ys @ ?post)" using wf xs by simp
  then have wfy: "well_formed False ?ys" by (simp add: well_formed_append)
  have pre: "extent_blocks e \<inter> covered ?pre = {}"
  proof -
    have "hi y \<le> lo e" if "y \<in> set ?pre" for y
    proof -
      from that obtain i where i: "i < l" "y = xs ! i" using lu un
        by (auto simp: in_set_conv_nth)
      then have si: "Suc i < lb" by (auto simp: l_def split: if_splits)
      then have "ExtentLess (xs ! Suc i) e" unfolding lb_def by (rule lower_bound_nth_less)
      then have "lo (xs ! Suc i) \<le> lo e" by (simp add: Pl)
      moreover have "gap False (xs ! i) (xs ! Suc i)"
        using si lbn by (intro well_formed_nth_gap [OF wf]) auto
      ultimately show ?thesis using i(2) by simp
    qed
    then show ?thesis by (fastforce simp: covered_def extent_blocks_def)
  qed
  have post: "extent_blocks e \<inter> covered ?post = {}"
  proof -
    have "hi e \<le> lo y" if "y \<in> set ?post" for y
    proof -
      from that obtain j where "j < length xs - u" "y = xs ! (u + j)"
        using un by (auto simp: in_set_conv_nth)
      then have j: "u + j < length xs" "y = xs ! (u + j)" by simp_all
      then have "u < length xs" by simp
      then have "\<not> ExtentLess (xs ! u) (ExtentForRange (start_block e + num_blocks e) 0)"
        unfolding u_def by (rule lower_bound_nth_not)
      then have 1: "hi e \<le> lo (xs ! u)" by (simp add: Pu)
      show ?thesis
      proof (cases "j = 0")
        case True
        with 1 j show ?thesis by simp
      next
        case False
        then have "gap False (xs ! u) (xs ! (u + j))"
          using j(1) by (intro well_formed_nth_gap [OF wf]) auto
        with 1 lo_le_hi [of "xs ! u"] j(2) show ?thesis by simp
      qed
    qed
    then show ?thesis by (fastforce simp: covered_def extent_blocks_def)
  qed
  have "covered xs = covered ?pre \<union> covered ?ys \<union> covered ?post"
    by (subst xs) (simp add: Un_assoc)
  with pre post have c: "extent_blocks e \<inter> covered xs = extent_blocks e \<inter> covered ?ys"
    by auto
  from filter_loop [OF wfy e, of ?pre ?post res] obtain res' ext' where
    "FilterExtentRanges_loop (?pre @ ?ys @ ?post) (length ?pre) (length ?pre + length ?ys)
       (res, e) = Inr (res', ext')"
    "total_blocks res' + unat (num_blocks ext') + card (extent_blocks e \<inter> covered ?ys) =
       total_blocks res + unat (num_blocks e)"
    by blast
  then have "FilterExtentRanges_loop xs l u (res, e) = Inr (res', ext') \<and>
      total_blocks res' + unat (num_blocks ext') + card (extent_blocks e \<inter> covered xs) =
       total_blocks res + unat (num_blocks e)"
    by (simp only: len c xs [symmetric])
  then show ?thesis unfolding l_def lb_def u_def by blast
qed

lemma filter_from:
  assumes "well_formed False xs" "\<forall>e\<in>set es. bounded e"
  shows "\<exists>out. FilterExtentRanges_from xs es result = Inr out \<and>
           total_blocks out + (\<Sum>e\<leftarrow>es. card (extent_blocks e \<inter> covered xs)) =
           total_blocks result + total_blocks es"
  using assms(2)
proof (induction es arbitrary: result)
  case Nil
  show ?case by simp
next
  case (Cons e es)
  then have e: "bounded e" and es: "\<forall>e\<in>set es. bounded e" by simp_all
  from filter_one [OF assms(1) e, of result] obtain res' ext' where
    l: "FilterExtentRanges_loop xs
             (if lower_bound xs e \<noteq> 0 then lower_bound xs e - 1 else lower_bound xs e)
             (lower_bound xs (ExtentForRange (start_block e + num_blocks e) 0))
             (result, e) = Inr (res', ext')"
    and t: "total_blocks res' + unat (num_blocks ext') + card (extent_blocks e \<inter> covered xs) =
           total_blocks result + unat (num_blocks e)"
    by blast
  let ?r = "if num_blocks ext' > 0 then res' @ [ext'] else res'"
  have tr: "total_blocks ?r = total_blocks res' + unat (num_blocks ext')"
    by (simp add: word_less_nat_alt)
  from Cons.IH [OF es, of ?r] obtain out where
    o: "FilterExtentRanges_from xs es ?r = Inr out"
    and to: "total_blocks out + (\<Sum>e\<leftarrow>es. card (extent_blocks e \<inter> covered xs)) =
           total_blocks ?r + total_blocks es"
    by blast
  have "FilterExtentRanges_from xs (e # es) result = Inr out"
    using l o by (simp add: Let_def)
  moreover have "total_blocks out + (\<Sum>e\<leftarrow>e # es. card (extent_blocks e \<inter> covered xs)) =
           total_blocks result + total_blocks (e # es)"
    using to t unfolding tr by simp
  ultimately show ?case by blast
qed

subsection \<open>Evaluation on concrete sets\<close>

lemmas eval_defs = AddExtent_def GetCandidateRange_def lower_bound_def upper_bound_def
  walk_lower.simps walk_upper.simps AddExtent_loop.simps ExtentLess_def ExtentsOverlap_def
  ExtentsOverlapOrTouch_def UnionOverlappingExtents_def ExtentForRange_def kSparseHole_def
  erase_def Let_def SubtractExtent_def SubtractExtent_loop.simps
  SubtractOverlappingExtents_def empty_ranges_def word_le_nat_alt word_less_nat_alt

lemmas query_eval_defs = ContainsBlock_def ContainsBlock_loop.simps lower_bound_def
  ExtentLess_def ExtentForRange_def Let_def kSparseHole_def word_le_nat_alt word_less_nat_alt

lemmas filter_eval_defs = FilterExtentRanges_def FilterExtentRanges_loop.simps lower_bound_def
  ExtentLess_def ExtentsOverlap_def ExtentForRange_def Let_def kSparseHole_def
  word_le_nat_alt word_less_nat_alt

section \<open>The claims about sets of extents\<close>

text \<open>
  Claim C1, as the code has it. Every set that is reached from the empty set by calls of
  \<open>AddExtent\<close> and \<open>SubtractExtent\<close> whose extents are sparse holes or end at or before
  the sentinel (so that no end wraps around) is reached without a failure and satisfies
  the invariants: no entry is a sparse hole or empty, the entries ascend by start block,
  no two share a block, in merge mode no two touch, and the counter is the sum of the
  lengths. The bulk variants are runs of these calls.
\<close>
theorem invariant_of_admissible_calls:
  "((\<forall>c\<in>set calls. admissible (call_extent c)) \<longrightarrow>
      (\<exists>s. apply_calls (empty_ranges merge) calls = Inr s \<and> invariant s)) \<and>
   AddExtents s0 es = apply_calls s0 (map Add es) \<and>
   Inr (SubtractExtents s0 es) = apply_calls s0 (map Subtract es) \<and>
   AddRanges s0 r = apply_calls s0 (map Add (extent_set r)) \<and>
   Inr (SubtractRanges s0 r) = apply_calls s0 (map Subtract (extent_set r)) \<and>
   AddRepeatedExtents s0 es = apply_calls s0 (map Add es) \<and>
   Inr (SubtractRepeatedExtents s0 es) = apply_calls s0 (map Subtract es) \<and>
   AddBlock s0 block = apply_calls s0 [Add (ExtentForRange block 1)] \<and>
   Inr (SubtractBlock s0 block) = apply_calls s0 [Subtract (ExtentForRange block 1)]"
proof -
  have "\<exists>s. apply_calls (empty_ranges merge) calls = Inr s \<and> invariant s"
    if "\<forall>c\<in>set calls. admissible (call_extent c)"
    using apply_calls_ok [OF ranges_ok_empty that] ranges_ok_invariant by blast
  moreover have "AddBlock s0 block = apply_calls s0 [Add (ExtentForRange block 1)]"
    by (simp add: AddBlock_def split: sum.splits)
  ultimately show ?thesis
    by (simp add: AddExtents_calls SubtractExtents_calls AddRanges_def SubtractRanges_def
        AddRepeatedExtents_def SubtractRepeatedExtents_def SubtractBlock_def)
qed

text \<open>
  An instance of C1: three calls in merge mode, the set they reach and its invariants.
\<close>
theorem invariant_of_admissible_calls_witness:
  "admissible \<lparr>start_block = 5, num_blocks = 3\<rparr> \<and>
   admissible \<lparr>start_block = 8, num_blocks = 2\<rparr> \<and>
   admissible \<lparr>start_block = 6, num_blocks = 1\<rparr> \<and>
   apply_calls (empty_ranges True)
     [Add \<lparr>start_block = 5, num_blocks = 3\<rparr>, Add \<lparr>start_block = 8, num_blocks = 2\<rparr>,
      Subtract \<lparr>start_block = 6, num_blocks = 1\<rparr>] =
     Inr \<lparr>extent_set = [\<lparr>start_block = 5, num_blocks = 1\<rparr>, \<lparr>start_block = 7, num_blocks = 3\<rparr>],
          blocks = 4, merge_touching_extents = True\<rparr> \<and>
   invariant \<lparr>extent_set = [\<lparr>start_block = 5, num_blocks = 1\<rparr>, \<lparr>start_block = 7, num_blocks = 3\<rparr>],
          blocks = 4, merge_touching_extents = True\<rparr>"
proof -
  let ?calls = "[Add \<lparr>start_block = 5, num_blocks = 3\<rparr>, Add \<lparr>start_block = 8, num_blocks = 2\<rparr>,
      Subtract \<lparr>start_block = 6, num_blocks = 1\<rparr>]"
  let ?s = "\<lparr>extent_set = [\<lparr>start_block = 5, num_blocks = 1\<rparr>, \<lparr>start_block = 7, num_blocks = 3\<rparr>],
          blocks = 4, merge_touching_extents = True\<rparr>"
  have a: "\<forall>c\<in>set ?calls. admissible (call_extent c)"
    by (simp add: admissible_def bounded_def hi_def unat_hole)
  have r: "apply_calls (empty_ranges True) ?calls = Inr ?s"
    by (simp add: eval_defs)
  from invariant_of_admissible_calls [of ?calls True] a
  have "\<exists>s. apply_calls (empty_ranges True) ?calls = Inr s \<and> invariant s" by blast
  then have "invariant ?s" unfolding r by simp
  with a r show ?thesis by simp
qed

text \<open>
  Claim C1 as it is written fails: subtracting an extent whose end wraps around leaves
  the two entries \<open>{0, 5}\<close> and \<open>{2, 8}\<close>, which share the blocks 2, 3 and 4. And
  adding such an extent twice leaves one entry of 5 blocks under a counter of 10.
\<close>
theorem invariant_counterexample:
  "apply_calls (empty_ranges True)
     [Add \<lparr>start_block = 0, num_blocks = 10\<rparr>,
      Subtract \<lparr>start_block = 5, num_blocks = 0xFFFFFFFFFFFFFFFD\<rparr>] =
     Inr \<lparr>extent_set = [\<lparr>start_block = 0, num_blocks = 5\<rparr>, \<lparr>start_block = 2, num_blocks = 8\<rparr>],
          blocks = 13, merge_touching_extents = True\<rparr> \<and>
   \<not> invariant \<lparr>extent_set = [\<lparr>start_block = 0, num_blocks = 5\<rparr>, \<lparr>start_block = 2, num_blocks = 8\<rparr>],
          blocks = 13, merge_touching_extents = True\<rparr> \<and>
   apply_calls (empty_ranges True)
     [Add \<lparr>start_block = 0xFFFFFFFFFFFFFFFE, num_blocks = 5\<rparr>,
      Add \<lparr>start_block = 0xFFFFFFFFFFFFFFFE, num_blocks = 5\<rparr>] =
     Inr \<lparr>extent_set = [\<lparr>start_block = 0xFFFFFFFFFFFFFFFE, num_blocks = 5\<rparr>], blocks = 10,
          merge_touching_extents = True\<rparr> \<and>
   \<not> invariant \<lparr>extent_set = [\<lparr>start_block = 0xFFFFFFFFFFFFFFFE, num_blocks = 5\<rparr>],
          blocks = 10, merge_touching_extents = True\<rparr>"
proof -
  have "apply_calls (empty_ranges True)
     [Add \<lparr>start_block = 0, num_blocks = 10\<rparr>,
      Subtract \<lparr>start_block = 5, num_blocks = 0xFFFFFFFFFFFFFFFD\<rparr>] =
     Inr \<lparr>extent_set = [\<lparr>start_block = 0, num_blocks = 5\<rparr>, \<lparr>start_block = 2, num_blocks = 8\<rparr>],
          blocks = 13, merge_touching_extents = True\<rparr>"
    by (simp add: eval_defs)
  moreover have "\<not> invariant \<lparr>extent_set = [\<lparr>start_block = 0, num_blocks = 5\<rparr>, \<lparr>start_block = 2, num_blocks = 8\<rparr>],
          blocks = 13, merge_touching_extents = True\<rparr>"
    by (simp add: invariant_def extent_blocks_def lo_def hi_def)
  moreover have "apply_calls (empty_ranges True)
     [Add \<lparr>start_block = 0xFFFFFFFFFFFFFFFE, num_blocks = 5\<rparr>,
      Add \<lparr>start_block = 0xFFFFFFFFFFFFFFFE, num_blocks = 5\<rparr>] =
     Inr \<lparr>extent_set = [\<lparr>start_block = 0xFFFFFFFFFFFFFFFE, num_blocks = 5\<rparr>], blocks = 10,
          merge_touching_extents = True\<rparr>"
    by (simp add: eval_defs)
  moreover have "\<not> invariant \<lparr>extent_set = [\<lparr>start_block = 0xFFFFFFFFFFFFFFFE, num_blocks = 5\<rparr>],
          blocks = 10, merge_touching_extents = True\<rparr>"
    by (simp add: invariant_def total_blocks_def)
  ultimately show ?thesis by blast
qed

text \<open>
  Claim C2, as the code has it. For a set that satisfies the invariants and whose entries
  end at or before the sentinel, and a non-empty extent \<open>e\<close> that ends at or before the
  sentinel, \<open>AddExtent\<close> returns a set that covers the old blocks and those of \<open>e\<close>, and
  \<open>SubtractExtent\<close> returns a set that covers the old blocks without those of \<open>e\<close>.
\<close>
theorem covered_after_add_subtract:
  "invariant s \<and> (\<forall>x\<in>set (extent_set s). bounded x) \<and> proper e \<longrightarrow>
   (\<exists>s'. AddExtent s e = Inr s' \<and>
         covered (extent_set s') = covered (extent_set s) \<union> extent_blocks e) \<and>
   covered (extent_set (SubtractExtent s e)) = covered (extent_set s) - extent_blocks e"
proof (intro impI)
  assume a: "invariant s \<and> (\<forall>x\<in>set (extent_set s). bounded x) \<and> proper e"
  then have ok: "ranges_ok s" and e: "proper e" by (simp_all add: ranges_ok_iff)
  from AddExtent_proper [OF ok e] SubtractExtent_proper [OF ok e]
  show "(\<exists>s'. AddExtent s e = Inr s' \<and>
         covered (extent_set s') = covered (extent_set s) \<union> extent_blocks e) \<and>
   covered (extent_set (SubtractExtent s e)) = covered (extent_set s) - extent_blocks e"
    by blast
qed

text \<open>
  An instance of C2: adding \<open>{6, 4}\<close> to the set of \<open>{5, 3}\<close>, and subtracting it.
\<close>
theorem covered_after_add_subtract_witness:
  "invariant \<lparr>extent_set = [\<lparr>start_block = 5, num_blocks = 3\<rparr>], blocks = 3,
      merge_touching_extents = True\<rparr> \<and>
   bounded \<lparr>start_block = 5, num_blocks = 3\<rparr> \<and> proper \<lparr>start_block = 6, num_blocks = 4\<rparr> \<and>
   (\<exists>s'. AddExtent \<lparr>extent_set = [\<lparr>start_block = 5, num_blocks = 3\<rparr>], blocks = 3,
             merge_touching_extents = True\<rparr> \<lparr>start_block = 6, num_blocks = 4\<rparr> = Inr s' \<and>
         covered (extent_set s') = {5 ..< 10}) \<and>
   covered (extent_set (SubtractExtent \<lparr>extent_set = [\<lparr>start_block = 5, num_blocks = 3\<rparr>],
      blocks = 3, merge_touching_extents = True\<rparr> \<lparr>start_block = 6, num_blocks = 4\<rparr>)) = {5}"
proof -
  let ?s = "\<lparr>extent_set = [\<lparr>start_block = 5, num_blocks = 3\<rparr>], blocks = 3,
      merge_touching_extents = True\<rparr>"
  let ?e = "\<lparr>start_block = 6, num_blocks = 4\<rparr>"
  have i: "invariant ?s" by (simp add: invariant_def total_blocks_def kSparseHole_def)
  have b: "\<forall>x\<in>set (extent_set ?s). bounded x" "bounded \<lparr>start_block = 5, num_blocks = 3\<rparr>"
    by (simp_all add: bounded_def hi_def unat_hole)
  have p: "proper ?e" by (simp add: proper_def bounded_def hi_def unat_hole)
  have u: "covered (extent_set ?s) \<union> extent_blocks ?e = {5 ..< 10}"
    by (auto simp: covered_def extent_blocks_def lo_def hi_def)
  have d: "covered (extent_set ?s) - extent_blocks ?e = {5}"
    by (auto simp: covered_def extent_blocks_def lo_def hi_def)
  from covered_after_add_subtract [of ?s ?e] i b p
  have "(\<exists>s'. AddExtent ?s ?e = Inr s' \<and>
         covered (extent_set s') = covered (extent_set ?s) \<union> extent_blocks ?e) \<and>
     covered (extent_set (SubtractExtent ?s ?e)) = covered (extent_set ?s) - extent_blocks ?e"
    by blast
  then show ?thesis unfolding u d using i b p by blast
qed

text \<open>
  Claim C2 as it is written fails: the extent \<open>{5, 2^64 - 3}\<close> is not degenerate and
  holds block 7, and block 7 is still covered after the extent was subtracted from the set
  of \<open>{0, 10}\<close>. And where an entry of the set wraps around, adding its first block to
  the set shortens the entry to that block: block \<open>2^64 - 2\<close> is no longer covered.
\<close>
theorem covered_counterexample:
  "invariant \<lparr>extent_set = [\<lparr>start_block = 0, num_blocks = 10\<rparr>], blocks = 10,
      merge_touching_extents = True\<rparr> \<and>
   start_block \<lparr>start_block = 5, num_blocks = 0xFFFFFFFFFFFFFFFD\<rparr> \<noteq> kSparseHole \<and>
   num_blocks \<lparr>start_block = 5, num_blocks = 0xFFFFFFFFFFFFFFFD :: u64\<rparr> \<noteq> 0 \<and>
   7 \<in> extent_blocks \<lparr>start_block = 5, num_blocks = 0xFFFFFFFFFFFFFFFD\<rparr> \<and>
   7 \<in> covered (extent_set (SubtractExtent
          \<lparr>extent_set = [\<lparr>start_block = 0, num_blocks = 10\<rparr>], blocks = 10,
            merge_touching_extents = True\<rparr>
          \<lparr>start_block = 5, num_blocks = 0xFFFFFFFFFFFFFFFD\<rparr>)) \<and>
   invariant \<lparr>extent_set = [\<lparr>start_block = 0xFFFFFFFFFFFFFFFD, num_blocks = 10\<rparr>],
      blocks = 10, merge_touching_extents = True\<rparr> \<and>
   AddExtent \<lparr>extent_set = [\<lparr>start_block = 0xFFFFFFFFFFFFFFFD, num_blocks = 10\<rparr>],
        blocks = 10, merge_touching_extents = True\<rparr>
       \<lparr>start_block = 0xFFFFFFFFFFFFFFFD, num_blocks = 1\<rparr> =
     Inr \<lparr>extent_set = [\<lparr>start_block = 0xFFFFFFFFFFFFFFFD, num_blocks = 1\<rparr>], blocks = 1,
          merge_touching_extents = True\<rparr> \<and>
   18446744073709551614 \<in> covered [\<lparr>start_block = 0xFFFFFFFFFFFFFFFD, num_blocks = 10\<rparr>] \<and>
   18446744073709551614 \<notin> covered [\<lparr>start_block = 0xFFFFFFFFFFFFFFFD, num_blocks = 1\<rparr>]"
proof -
  have "SubtractExtent
          \<lparr>extent_set = [\<lparr>start_block = 0, num_blocks = 10\<rparr>], blocks = 10,
            merge_touching_extents = True\<rparr>
          \<lparr>start_block = 5, num_blocks = 0xFFFFFFFFFFFFFFFD\<rparr> =
     \<lparr>extent_set = [\<lparr>start_block = 0, num_blocks = 5\<rparr>, \<lparr>start_block = 2, num_blocks = 8\<rparr>],
          blocks = 13, merge_touching_extents = True\<rparr>"
    by (simp add: eval_defs)
  moreover have "AddExtent \<lparr>extent_set = [\<lparr>start_block = 0xFFFFFFFFFFFFFFFD, num_blocks = 10\<rparr>],
        blocks = 10, merge_touching_extents = True\<rparr>
       \<lparr>start_block = 0xFFFFFFFFFFFFFFFD, num_blocks = 1\<rparr> =
     Inr \<lparr>extent_set = [\<lparr>start_block = 0xFFFFFFFFFFFFFFFD, num_blocks = 1\<rparr>], blocks = 1,
          merge_touching_extents = True\<rparr>"
    by (simp add: eval_defs)
  ultimately show ?thesis
    by (simp add: invariant_def total_blocks_def kSparseHole_def covered_def extent_blocks_def
        lo_def hi_def)
qed



text \<open>
  Claim C10, as the code has it. On a set reached by calls whose extents are sparse holes
  or end at or before the sentinel, adding such an extent a second time returns the set
  that the first addition returned: the same entries and the same counter.
\<close>
theorem AddExtent_twice:
  "(\<forall>c\<in>set calls. admissible (call_extent c)) \<and> admissible e \<and>
   apply_calls (empty_ranges merge) calls = Inr s \<longrightarrow>
   (\<exists>s'. AddExtent s e = Inr s' \<and> AddExtent s' e = Inr s')"
proof (intro impI)
  assume a: "(\<forall>c\<in>set calls. admissible (call_extent c)) \<and> admissible e \<and>
   apply_calls (empty_ranges merge) calls = Inr s"
  with apply_calls_ok [OF ranges_ok_empty, of calls merge] have "ranges_ok s" by auto
  from AddExtent_admissible [OF this, of e] a
  show "\<exists>s'. AddExtent s e = Inr s' \<and> AddExtent s' e = Inr s'" by blast
qed

text \<open>
  An instance of C10: the set of \<open>{5, 3}\<close> and the extent \<open>{7, 4}\<close>.
\<close>
theorem AddExtent_twice_witness:
  "admissible \<lparr>start_block = 5, num_blocks = 3\<rparr> \<and>
   admissible \<lparr>start_block = 7, num_blocks = 4\<rparr> \<and>
   apply_calls (empty_ranges True) [Add \<lparr>start_block = 5, num_blocks = 3\<rparr>] =
     Inr \<lparr>extent_set = [\<lparr>start_block = 5, num_blocks = 3\<rparr>], blocks = 3,
          merge_touching_extents = True\<rparr> \<and>
   (\<exists>s'. AddExtent \<lparr>extent_set = [\<lparr>start_block = 5, num_blocks = 3\<rparr>], blocks = 3,
             merge_touching_extents = True\<rparr> \<lparr>start_block = 7, num_blocks = 4\<rparr> = Inr s' \<and>
         AddExtent s' \<lparr>start_block = 7, num_blocks = 4\<rparr> = Inr s')"
proof -
  let ?calls = "[Add \<lparr>start_block = 5, num_blocks = 3\<rparr>]"
  let ?e = "\<lparr>start_block = 7, num_blocks = 4\<rparr>"
  let ?s = "\<lparr>extent_set = [\<lparr>start_block = 5, num_blocks = 3\<rparr>], blocks = 3,
          merge_touching_extents = True\<rparr>"
  have a: "\<forall>c\<in>set ?calls. admissible (call_extent c)" "admissible ?e"
    by (simp_all add: admissible_def bounded_def hi_def unat_hole)
  have r: "apply_calls (empty_ranges True) ?calls = Inr ?s"
    by (simp add: eval_defs)
  from AddExtent_twice [of ?calls ?e True ?s] a r
  have "\<exists>s'. AddExtent ?s ?e = Inr s' \<and> AddExtent s' ?e = Inr s'" by blast
  with a r show ?thesis by simp
qed

text \<open>
  Claim C10 as it is written fails: an extent whose end wraps around is not merged with
  itself, and the second addition counts its five blocks again. And on a set that holds
  such an extent, adding \<open>{0, 2}\<close> leaves the entry \<open>{0, 1}\<close> in place the first time
  and merges it the second time.
\<close>
theorem AddExtent_twice_counterexample:
  "apply_calls (empty_ranges True) [] = Inr (empty_ranges True) \<and>
   AddExtent (empty_ranges True) \<lparr>start_block = 0xFFFFFFFFFFFFFFFE, num_blocks = 5\<rparr> =
     Inr \<lparr>extent_set = [\<lparr>start_block = 0xFFFFFFFFFFFFFFFE, num_blocks = 5\<rparr>], blocks = 5,
          merge_touching_extents = True\<rparr> \<and>
   AddExtent \<lparr>extent_set = [\<lparr>start_block = 0xFFFFFFFFFFFFFFFE, num_blocks = 5\<rparr>], blocks = 5,
          merge_touching_extents = True\<rparr>
       \<lparr>start_block = 0xFFFFFFFFFFFFFFFE, num_blocks = 5\<rparr> =
     Inr \<lparr>extent_set = [\<lparr>start_block = 0xFFFFFFFFFFFFFFFE, num_blocks = 5\<rparr>], blocks = 10,
          merge_touching_extents = True\<rparr> \<and>
   apply_calls (empty_ranges True)
     [Add \<lparr>start_block = 0, num_blocks = 1\<rparr>,
      Add \<lparr>start_block = 2, num_blocks = 0xFFFFFFFFFFFFFFFE\<rparr>] =
     Inr \<lparr>extent_set = [\<lparr>start_block = 0, num_blocks = 1\<rparr>,
            \<lparr>start_block = 2, num_blocks = 0xFFFFFFFFFFFFFFFE\<rparr>],
          blocks = 0xFFFFFFFFFFFFFFFF, merge_touching_extents = True\<rparr> \<and>
   AddExtent \<lparr>extent_set = [\<lparr>start_block = 0, num_blocks = 1\<rparr>,
            \<lparr>start_block = 2, num_blocks = 0xFFFFFFFFFFFFFFFE\<rparr>],
          blocks = 0xFFFFFFFFFFFFFFFF, merge_touching_extents = True\<rparr>
       \<lparr>start_block = 0, num_blocks = 2\<rparr> =
     Inr \<lparr>extent_set = [\<lparr>start_block = 0, num_blocks = 1\<rparr>, \<lparr>start_block = 0, num_blocks = 2\<rparr>],
          blocks = 3, merge_touching_extents = True\<rparr> \<and>
   AddExtent \<lparr>extent_set = [\<lparr>start_block = 0, num_blocks = 1\<rparr>, \<lparr>start_block = 0, num_blocks = 2\<rparr>],
          blocks = 3, merge_touching_extents = True\<rparr>
       \<lparr>start_block = 0, num_blocks = 2\<rparr> =
     Inr \<lparr>extent_set = [\<lparr>start_block = 0, num_blocks = 2\<rparr>], blocks = 2,
          merge_touching_extents = True\<rparr>"
  by (simp add: eval_defs)

text \<open>
  Claim C7, as the code has it. On a set reached by calls whose extents are sparse holes
  or end at or before the sentinel, and for every block index other than the sentinel,
  \<open>ContainsBlock\<close> returns, and returns true exactly when some stored extent \<open>E\<close> has
  \<open>start_block E \<le> block < start_block E + num_blocks E\<close>, that is, when the block lies
  within an entry.
\<close>
theorem ContainsBlock_iff_within_entry:
  "(\<forall>c\<in>set calls. admissible (call_extent c)) \<and>
   apply_calls (empty_ranges merge) calls = Inr s \<and> block \<noteq> kSparseHole \<longrightarrow>
   ContainsBlock s block =
     Inr (\<exists>E\<in>set (extent_set s). start_block E \<le> block \<and>
            block < start_block E + num_blocks E) \<and>
   ContainsBlock s block = Inr (unat block \<in> covered (extent_set s))"
proof (intro impI)
  assume a: "(\<forall>c\<in>set calls. admissible (call_extent c)) \<and>
   apply_calls (empty_ranges merge) calls = Inr s \<and> block \<noteq> kSparseHole"
  with apply_calls_ok [OF ranges_ok_empty, of calls merge] have ok: "ranges_ok s" by auto
  from a have b: "block \<noteq> kSparseHole" by simp
  show "ContainsBlock s block =
     Inr (\<exists>E\<in>set (extent_set s). start_block E \<le> block \<and>
            block < start_block E + num_blocks E) \<and>
   ContainsBlock s block = Inr (unat block \<in> covered (extent_set s))"
    using ContainsBlock_ok [OF ok b] covered_word_iff [OF ok, of block] by simp
qed

text \<open>
  An instance of C7: block 7 lies in the set of \<open>{5, 1}\<close> and \<open>{7, 1}\<close>, block 6 does not.
\<close>
theorem ContainsBlock_iff_within_entry_witness:
  "admissible \<lparr>start_block = 5, num_blocks = 3\<rparr> \<and>
   admissible \<lparr>start_block = 6, num_blocks = 1\<rparr> \<and>
   apply_calls (empty_ranges True)
     [Add \<lparr>start_block = 5, num_blocks = 3\<rparr>, Subtract \<lparr>start_block = 6, num_blocks = 1\<rparr>] =
     Inr \<lparr>extent_set = [\<lparr>start_block = 5, num_blocks = 1\<rparr>, \<lparr>start_block = 7, num_blocks = 1\<rparr>],
          blocks = 2, merge_touching_extents = True\<rparr> \<and>
   (7 :: u64) \<noteq> kSparseHole \<and> (6 :: u64) \<noteq> kSparseHole \<and>
   ContainsBlock \<lparr>extent_set = [\<lparr>start_block = 5, num_blocks = 1\<rparr>, \<lparr>start_block = 7, num_blocks = 1\<rparr>],
          blocks = 2, merge_touching_extents = True\<rparr> 7 = Inr True \<and>
   ContainsBlock \<lparr>extent_set = [\<lparr>start_block = 5, num_blocks = 1\<rparr>, \<lparr>start_block = 7, num_blocks = 1\<rparr>],
          blocks = 2, merge_touching_extents = True\<rparr> 6 = Inr False"
proof -
  let ?calls = "[Add \<lparr>start_block = 5, num_blocks = 3\<rparr>, Subtract \<lparr>start_block = 6, num_blocks = 1\<rparr>]"
  let ?s = "\<lparr>extent_set = [\<lparr>start_block = 5, num_blocks = 1\<rparr>, \<lparr>start_block = 7, num_blocks = 1\<rparr>],
          blocks = 2, merge_touching_extents = True\<rparr>"
  have a: "admissible \<lparr>start_block = 5, num_blocks = 3\<rparr>"
    "admissible \<lparr>start_block = 6, num_blocks = 1\<rparr>"
    by (simp_all add: admissible_def bounded_def hi_def unat_hole)
  then have a': "\<forall>c\<in>set ?calls. admissible (call_extent c)" by simp
  have r: "apply_calls (empty_ranges True) ?calls = Inr ?s" by (simp add: eval_defs)
  have n: "(7 :: u64) \<noteq> kSparseHole" "(6 :: u64) \<noteq> kSparseHole" by (simp_all add: kSparseHole_def)
  from ContainsBlock_iff_within_entry [of ?calls True ?s 7] a' r n
  have "ContainsBlock ?s 7 = Inr (unat (7 :: u64) \<in> covered (extent_set ?s))" by blast
  moreover have "unat (7 :: u64) \<in> covered (extent_set ?s)"
    by (simp add: covered_def extent_blocks_def lo_def hi_def)
  ultimately have 7: "ContainsBlock ?s 7 = Inr True" by simp
  from ContainsBlock_iff_within_entry [of ?calls True ?s 6] a' r n
  have "ContainsBlock ?s 6 = Inr (unat (6 :: u64) \<in> covered (extent_set ?s))" by blast
  moreover have "unat (6 :: u64) \<notin> covered (extent_set ?s)"
    by (simp add: covered_def extent_blocks_def lo_def hi_def)
  ultimately have 6: "ContainsBlock ?s 6 = Inr False" by simp
  from a r n 7 6 show ?thesis by simp
qed

text \<open>
  Claim C7 as it is written fails twice. After a subtraction whose extent wraps around,
  block 2 lies within the entry \<open>{0, 3}\<close> and \<open>ContainsBlock\<close> returns false. And for the
  sentinel block, \<open>block + 1\<close> wraps to zero, the upper position lies before the lower one,
  and the loop runs into the end of a set of two entries.
\<close>
theorem ContainsBlock_counterexample:
  "apply_calls (empty_ranges True)
     [Add \<lparr>start_block = 1, num_blocks = 2\<rparr>,
      Subtract \<lparr>start_block = 2, num_blocks = 0xFFFFFFFFFFFFFFFE\<rparr>] =
     Inr \<lparr>extent_set = [\<lparr>start_block = 0, num_blocks = 3\<rparr>, \<lparr>start_block = 1, num_blocks = 1\<rparr>],
          blocks = 4, merge_touching_extents = True\<rparr> \<and>
   start_block \<lparr>start_block = 0, num_blocks = 3 :: u64\<rparr> \<le> (2 :: u64) \<and>
   (2 :: u64) < start_block \<lparr>start_block = 0, num_blocks = 3\<rparr> +
                  num_blocks \<lparr>start_block = 0, num_blocks = 3\<rparr> \<and>
   ContainsBlock \<lparr>extent_set = [\<lparr>start_block = 0, num_blocks = 3\<rparr>, \<lparr>start_block = 1, num_blocks = 1\<rparr>],
          blocks = 4, merge_touching_extents = True\<rparr> 2 = Inr False \<and>
   apply_calls (empty_ranges True)
     [Add \<lparr>start_block = 0, num_blocks = 1\<rparr>, Add \<lparr>start_block = 5, num_blocks = 1\<rparr>] =
     Inr \<lparr>extent_set = [\<lparr>start_block = 0, num_blocks = 1\<rparr>, \<lparr>start_block = 5, num_blocks = 1\<rparr>],
          blocks = 2, merge_touching_extents = True\<rparr> \<and>
   ContainsBlock \<lparr>extent_set = [\<lparr>start_block = 0, num_blocks = 1\<rparr>, \<lparr>start_block = 5, num_blocks = 1\<rparr>],
          blocks = 2, merge_touching_extents = True\<rparr> kSparseHole = Inl UndefinedBehaviour"
proof -
  have 1: "apply_calls (empty_ranges True)
     [Add \<lparr>start_block = 1, num_blocks = 2\<rparr>,
      Subtract \<lparr>start_block = 2, num_blocks = 0xFFFFFFFFFFFFFFFE\<rparr>] =
     Inr \<lparr>extent_set = [\<lparr>start_block = 0, num_blocks = 3\<rparr>, \<lparr>start_block = 1, num_blocks = 1\<rparr>],
          blocks = 4, merge_touching_extents = True\<rparr>"
    by (simp add: eval_defs)
  have 2: "ContainsBlock \<lparr>extent_set = [\<lparr>start_block = 0, num_blocks = 3\<rparr>, \<lparr>start_block = 1, num_blocks = 1\<rparr>],
          blocks = 4, merge_touching_extents = True\<rparr> 2 = Inr False"
    by (simp add: query_eval_defs)
  have 3: "apply_calls (empty_ranges True)
     [Add \<lparr>start_block = 0, num_blocks = 1\<rparr>, Add \<lparr>start_block = 5, num_blocks = 1\<rparr>] =
     Inr \<lparr>extent_set = [\<lparr>start_block = 0, num_blocks = 1\<rparr>, \<lparr>start_block = 5, num_blocks = 1\<rparr>],
          blocks = 2, merge_touching_extents = True\<rparr>"
    by (simp add: eval_defs)
  have 4: "ContainsBlock \<lparr>extent_set = [\<lparr>start_block = 0, num_blocks = 1\<rparr>, \<lparr>start_block = 5, num_blocks = 1\<rparr>],
          blocks = 2, merge_touching_extents = True\<rparr> kSparseHole = Inl UndefinedBehaviour"
    by (simp add: query_eval_defs)
  from 1 2 3 4 show ?thesis by simp
qed

text \<open>
  Claim C4, as the code has it. On a set that satisfies the invariants, for every count
  \<open>n\<close> with \<open>0 < n \<le> blocks\<close>, \<open>GetExtentsForBlockCount\<close> returns extents in ascending
  order whose lengths sum to exactly \<open>n\<close>, each of them a non-empty part of a current entry
  that begins where the entry begins. For the count zero it returns the empty sequence,
  and for a count above \<open>blocks\<close> the first \<open>CHECK\<close> fails; these two hold on every set.
\<close>
theorem GetExtentsForBlockCount_take_n:
  "(invariant s \<and> 0 < n \<and> n \<le> blocks s \<longrightarrow>
      (\<exists>out. GetExtentsForBlockCount s n = Inr out \<and>
         sorted_wrt (\<lambda>a b. lo a < lo b) out \<and> total_blocks out = unat n \<and>
         (\<forall>p\<in>set out. \<exists>x\<in>set (extent_set s).
            start_block p = start_block x \<and> num_blocks p \<noteq> 0 \<and>
            num_blocks p \<le> num_blocks x \<and> extent_blocks p \<subseteq> extent_blocks x))) \<and>
   GetExtentsForBlockCount s 0 = Inr [] \<and>
   (blocks s < n \<longrightarrow> GetExtentsForBlockCount s n = Inl CheckFailed)"
proof (intro impI conjI)
  assume "invariant s \<and> 0 < n \<and> n \<le> blocks s"
  then show "\<exists>out. GetExtentsForBlockCount s n = Inr out \<and>
         sorted_wrt (\<lambda>a b. lo a < lo b) out \<and> total_blocks out = unat n \<and>
         (\<forall>p\<in>set out. \<exists>x\<in>set (extent_set s).
            start_block p = start_block x \<and> num_blocks p \<noteq> 0 \<and>
            num_blocks p \<le> num_blocks x \<and> extent_blocks p \<subseteq> extent_blocks x)"
    using GetExtentsForBlockCount_ok [of s n] by blast
next
  show "GetExtentsForBlockCount s 0 = Inr []"
    by (simp add: GetExtentsForBlockCount_def)
next
  assume "blocks s < n"
  then have "n \<noteq> 0" "\<not> n \<le> blocks s" by (auto simp: word_less_nat_alt word_le_nat_alt)
  then show "GetExtentsForBlockCount s n = Inl CheckFailed"
    by (simp add: GetExtentsForBlockCount_def)
qed

text \<open>
  An instance of C4: five blocks of the set of \<open>{0, 4}\<close> and \<open>{10, 4}\<close>, and nine blocks,
  which the set does not hold. The last two parts need no invariant: they also hold on a
  set whose counter is 10 over one entry of 5 blocks.
\<close>
theorem GetExtentsForBlockCount_take_n_witness:
  "invariant \<lparr>extent_set = [\<lparr>start_block = 0, num_blocks = 4\<rparr>, \<lparr>start_block = 10, num_blocks = 4\<rparr>],
      blocks = 8, merge_touching_extents = True\<rparr> \<and>
   (0 :: u64) < 5 \<and>
   (5 :: u64) \<le> blocks \<lparr>extent_set = [\<lparr>start_block = 0, num_blocks = 4\<rparr>,
      \<lparr>start_block = 10, num_blocks = 4\<rparr>], blocks = 8, merge_touching_extents = True\<rparr> \<and>
   GetExtentsForBlockCount \<lparr>extent_set = [\<lparr>start_block = 0, num_blocks = 4\<rparr>,
      \<lparr>start_block = 10, num_blocks = 4\<rparr>], blocks = 8, merge_touching_extents = True\<rparr> 5 =
     Inr [\<lparr>start_block = 0, num_blocks = 4\<rparr>, \<lparr>start_block = 10, num_blocks = 1\<rparr>] \<and>
   total_blocks [\<lparr>start_block = 0, num_blocks = 4\<rparr>, \<lparr>start_block = 10, num_blocks = 1\<rparr>] =
     unat (5 :: u64) \<and>
   blocks \<lparr>extent_set = [\<lparr>start_block = 0, num_blocks = 4\<rparr>,
      \<lparr>start_block = 10, num_blocks = 4\<rparr>], blocks = 8, merge_touching_extents = True\<rparr> < 9 \<and>
   GetExtentsForBlockCount \<lparr>extent_set = [\<lparr>start_block = 0, num_blocks = 4\<rparr>,
      \<lparr>start_block = 10, num_blocks = 4\<rparr>], blocks = 8, merge_touching_extents = True\<rparr> 9 =
     Inl CheckFailed \<and>
   blocks \<lparr>extent_set = [\<lparr>start_block = 0xFFFFFFFFFFFFFFFE, num_blocks = 5\<rparr>], blocks = 10,
      merge_touching_extents = True\<rparr> < 11 \<and>
   GetExtentsForBlockCount \<lparr>extent_set = [\<lparr>start_block = 0xFFFFFFFFFFFFFFFE, num_blocks = 5\<rparr>],
      blocks = 10, merge_touching_extents = True\<rparr> 11 = Inl CheckFailed \<and>
   GetExtentsForBlockCount \<lparr>extent_set = [\<lparr>start_block = 0xFFFFFFFFFFFFFFFE, num_blocks = 5\<rparr>],
      blocks = 10, merge_touching_extents = True\<rparr> 0 = Inr []"
proof -
  let ?w = "\<lparr>extent_set = [\<lparr>start_block = 0xFFFFFFFFFFFFFFFE, num_blocks = 5\<rparr>], blocks = 10,
      merge_touching_extents = True\<rparr>"
  let ?s = "\<lparr>extent_set = [\<lparr>start_block = 0, num_blocks = 4\<rparr>, \<lparr>start_block = 10, num_blocks = 4\<rparr>],
      blocks = 8, merge_touching_extents = True\<rparr>"
  let ?out = "[\<lparr>start_block = 0, num_blocks = 4\<rparr>, \<lparr>start_block = 10, num_blocks = 1\<rparr>]"
  have i: "invariant ?s"
    by (simp add: invariant_def total_blocks_def kSparseHole_def extent_blocks_def lo_def hi_def
        touching_def)
  have n: "(0 :: u64) < 5 \<and> (5 :: u64) \<le> blocks ?s" by (simp add: word_le_nat_alt)
  have b: "blocks ?s < 9" by (simp add: word_less_nat_alt)
  have g: "GetExtentsForBlockCount ?s 5 = Inr ?out"
    by (simp add: GetExtentsForBlockCount_def BlocksInExtents_def Let_def word_le_nat_alt
        word_less_nat_alt)
  from GetExtentsForBlockCount_take_n [of ?s 5] i n
  have "\<exists>out. GetExtentsForBlockCount ?s 5 = Inr out \<and> total_blocks out = unat (5 :: u64)"
    by blast
  then have t: "total_blocks ?out = unat (5 :: u64)" unfolding g by simp
  from GetExtentsForBlockCount_take_n [of ?s 9] i b
  have c: "GetExtentsForBlockCount ?s 9 = Inl CheckFailed" by blast
  have b': "blocks ?w < 11" by (simp add: word_less_nat_alt)
  from GetExtentsForBlockCount_take_n [of ?w 11] b'
  have c': "GetExtentsForBlockCount ?w 11 = Inl CheckFailed" by blast
  from GetExtentsForBlockCount_take_n [of ?w 11]
  have z: "GetExtentsForBlockCount ?w 0 = Inr []" by blast
  from i n b g t c b' c' z show ?thesis by simp
qed

text \<open>
  Claim C4 as it is written fails on a set whose counter is not the sum of its entries:
  adding twice an extent whose end wraps around gives one entry of five blocks and the
  counter ten, and seven blocks are asked for and five returned.
\<close>
theorem GetExtentsForBlockCount_counterexample:
  "apply_calls (empty_ranges True)
     [Add \<lparr>start_block = 0xFFFFFFFFFFFFFFFE, num_blocks = 5\<rparr>,
      Add \<lparr>start_block = 0xFFFFFFFFFFFFFFFE, num_blocks = 5\<rparr>] =
     Inr \<lparr>extent_set = [\<lparr>start_block = 0xFFFFFFFFFFFFFFFE, num_blocks = 5\<rparr>], blocks = 10,
          merge_touching_extents = True\<rparr> \<and>
   (0 :: u64) < 7 \<and>
   (7 :: u64) \<le> blocks \<lparr>extent_set = [\<lparr>start_block = 0xFFFFFFFFFFFFFFFE, num_blocks = 5\<rparr>],
          blocks = 10, merge_touching_extents = True\<rparr> \<and>
   GetExtentsForBlockCount
     \<lparr>extent_set = [\<lparr>start_block = 0xFFFFFFFFFFFFFFFE, num_blocks = 5\<rparr>], blocks = 10,
       merge_touching_extents = True\<rparr> 7 =
     Inr [\<lparr>start_block = 0xFFFFFFFFFFFFFFFE, num_blocks = 5\<rparr>] \<and>
   total_blocks [\<lparr>start_block = 0xFFFFFFFFFFFFFFFE, num_blocks = 5\<rparr>] = 5"
proof -
  have 1: "apply_calls (empty_ranges True)
     [Add \<lparr>start_block = 0xFFFFFFFFFFFFFFFE, num_blocks = 5\<rparr>,
      Add \<lparr>start_block = 0xFFFFFFFFFFFFFFFE, num_blocks = 5\<rparr>] =
     Inr \<lparr>extent_set = [\<lparr>start_block = 0xFFFFFFFFFFFFFFFE, num_blocks = 5\<rparr>], blocks = 10,
          merge_touching_extents = True\<rparr>"
    by (simp add: eval_defs)
  have 2: "GetExtentsForBlockCount
     \<lparr>extent_set = [\<lparr>start_block = 0xFFFFFFFFFFFFFFFE, num_blocks = 5\<rparr>], blocks = 10,
       merge_touching_extents = True\<rparr> 7 =
     Inr [\<lparr>start_block = 0xFFFFFFFFFFFFFFFE, num_blocks = 5\<rparr>]"
    by (simp add: GetExtentsForBlockCount_def BlocksInExtents_def Let_def word_le_nat_alt
        word_less_nat_alt)
  from 1 2 show ?thesis by (simp add: total_blocks_def word_le_nat_alt)
qed

text \<open>
  Claim C3, as the code has it. For an exclude set that satisfies the invariants and whose
  entries end at or before the sentinel, and input extents that end at or before the
  sentinel, \<open>FilterExtentRanges\<close> returns, and the blocks of its output are the blocks of
  the input less, for each input extent, the blocks it shares with the exclude set. The
  order of the input plays no part.
\<close>
theorem FilterExtentRanges_accounting:
  "invariant ranges \<and> (\<forall>x\<in>set (extent_set ranges). bounded x) \<and>
   (\<forall>e\<in>set extents. bounded e) \<longrightarrow>
   (\<exists>out. FilterExtentRanges extents ranges = Inr out \<and>
      total_blocks out =
        total_blocks extents -
        (\<Sum>e\<leftarrow>extents. card (extent_blocks e \<inter> covered (extent_set ranges))) \<and>
      (\<Sum>e\<leftarrow>extents. card (extent_blocks e \<inter> covered (extent_set ranges))) \<le>
        total_blocks extents)"
proof (intro impI)
  assume a: "invariant ranges \<and> (\<forall>x\<in>set (extent_set ranges). bounded x) \<and>
   (\<forall>e\<in>set extents. bounded e)"
  then have "ranges_ok ranges" by (simp add: ranges_ok_iff)
  then have wf: "well_formed False (extent_set ranges)"
    by (auto simp: ranges_ok_def dest: well_formed_weaken)
  from a have b: "\<forall>e\<in>set extents. bounded e" by simp
  from filter_from [OF wf b, of "[]"] obtain out where
    o: "FilterExtentRanges_from (extent_set ranges) extents [] = Inr out"
    and t: "total_blocks out +
        (\<Sum>e\<leftarrow>extents. card (extent_blocks e \<inter> covered (extent_set ranges))) =
        total_blocks [] + total_blocks extents"
    by blast
  from t have "total_blocks out =
        total_blocks extents -
        (\<Sum>e\<leftarrow>extents. card (extent_blocks e \<inter> covered (extent_set ranges)))"
    "(\<Sum>e\<leftarrow>extents. card (extent_blocks e \<inter> covered (extent_set ranges))) \<le>
        total_blocks extents"
    by simp_all
  with o show "\<exists>out. FilterExtentRanges extents ranges = Inr out \<and>
      total_blocks out =
        total_blocks extents -
        (\<Sum>e\<leftarrow>extents. card (extent_blocks e \<inter> covered (extent_set ranges))) \<and>
      (\<Sum>e\<leftarrow>extents. card (extent_blocks e \<inter> covered (extent_set ranges))) \<le>
        total_blocks extents"
    by (simp add: FilterExtentRanges_def)
qed

text \<open>
  An instance of C3: the extent \<open>{0, 10}\<close> filtered by the set of \<open>{3, 4}\<close>.
\<close>
theorem FilterExtentRanges_accounting_witness:
  "invariant \<lparr>extent_set = [\<lparr>start_block = 3, num_blocks = 4\<rparr>], blocks = 4,
      merge_touching_extents = True\<rparr> \<and>
   bounded \<lparr>start_block = 3, num_blocks = 4\<rparr> \<and> bounded \<lparr>start_block = 0, num_blocks = 10\<rparr> \<and>
   FilterExtentRanges [\<lparr>start_block = 0, num_blocks = 10\<rparr>]
     \<lparr>extent_set = [\<lparr>start_block = 3, num_blocks = 4\<rparr>], blocks = 4,
      merge_touching_extents = True\<rparr> =
     Inr [\<lparr>start_block = 0, num_blocks = 3\<rparr>, \<lparr>start_block = 7, num_blocks = 3\<rparr>] \<and>
   total_blocks [\<lparr>start_block = 0, num_blocks = 3\<rparr>, \<lparr>start_block = 7, num_blocks = 3\<rparr>] =
     total_blocks [\<lparr>start_block = 0, num_blocks = 10\<rparr>] - 4"
proof -
  let ?r = "\<lparr>extent_set = [\<lparr>start_block = 3, num_blocks = 4\<rparr>], blocks = 4,
      merge_touching_extents = True\<rparr>"
  let ?es = "[\<lparr>start_block = 0, num_blocks = 10\<rparr>]"
  let ?out = "[\<lparr>start_block = 0, num_blocks = 3\<rparr>, \<lparr>start_block = 7, num_blocks = 3\<rparr>]"
  have i: "invariant ?r" by (simp add: invariant_def total_blocks_def kSparseHole_def)
  have b: "bounded \<lparr>start_block = 3, num_blocks = 4\<rparr>" "bounded \<lparr>start_block = 0, num_blocks = 10\<rparr>"
    by (simp_all add: bounded_def hi_def unat_hole)
  then have b': "\<forall>x\<in>set (extent_set ?r). bounded x" "\<forall>e\<in>set ?es. bounded e" by simp_all
  have f: "FilterExtentRanges ?es ?r = Inr ?out" by (simp add: filter_eval_defs)
  have c: "(\<Sum>e\<leftarrow>?es. card (extent_blocks e \<inter> covered (extent_set ?r))) = 4"
    by (simp add: extent_blocks_def covered_def lo_def hi_def)
  from FilterExtentRanges_accounting [of ?r ?es] i b'
  have "\<exists>out. FilterExtentRanges ?es ?r = Inr out \<and>
      total_blocks out = total_blocks ?es -
        (\<Sum>e\<leftarrow>?es. card (extent_blocks e \<inter> covered (extent_set ?r)))"
    by blast
  then have "total_blocks ?out = total_blocks ?es - 4" unfolding f c by simp
  with i b f show ?thesis by simp
qed

text \<open>
  Claim C3 as it is written fails for an input extent whose end wraps around: the extent
  \<open>{5, 2^64 - 3}\<close> shares block 7 with the exclude set and is returned whole. And for a
  sparse hole of one block the upper position lies before the lower one and the loop runs
  into the end of the set. And where an entry of the exclude set wraps around, the input
  \<open>{2^64 - 2, 1}\<close>, which lies within it, is returned whole.
\<close>
theorem FilterExtentRanges_counterexample:
  "invariant \<lparr>extent_set = [\<lparr>start_block = 0, num_blocks = 1\<rparr>, \<lparr>start_block = 7, num_blocks = 1\<rparr>],
      blocks = 2, merge_touching_extents = True\<rparr> \<and>
   FilterExtentRanges [\<lparr>start_block = 5, num_blocks = 0xFFFFFFFFFFFFFFFD\<rparr>]
     \<lparr>extent_set = [\<lparr>start_block = 0, num_blocks = 1\<rparr>, \<lparr>start_block = 7, num_blocks = 1\<rparr>],
      blocks = 2, merge_touching_extents = True\<rparr> =
     Inr [\<lparr>start_block = 5, num_blocks = 0xFFFFFFFFFFFFFFFD\<rparr>] \<and>
   extent_blocks \<lparr>start_block = 5, num_blocks = 0xFFFFFFFFFFFFFFFD\<rparr> \<inter>
     covered [\<lparr>start_block = 0, num_blocks = 1\<rparr>, \<lparr>start_block = 7, num_blocks = 1\<rparr>] = {7} \<and>
   FilterExtentRanges [\<lparr>start_block = kSparseHole, num_blocks = 1\<rparr>]
     \<lparr>extent_set = [\<lparr>start_block = 0, num_blocks = 1\<rparr>, \<lparr>start_block = 7, num_blocks = 1\<rparr>],
      blocks = 2, merge_touching_extents = True\<rparr> = Inl UndefinedBehaviour \<and>
   invariant \<lparr>extent_set = [\<lparr>start_block = 0xFFFFFFFFFFFFFFFD, num_blocks = 10\<rparr>],
      blocks = 10, merge_touching_extents = True\<rparr> \<and>
   FilterExtentRanges [\<lparr>start_block = 0xFFFFFFFFFFFFFFFE, num_blocks = 1\<rparr>]
     \<lparr>extent_set = [\<lparr>start_block = 0xFFFFFFFFFFFFFFFD, num_blocks = 10\<rparr>],
      blocks = 10, merge_touching_extents = True\<rparr> =
     Inr [\<lparr>start_block = 0xFFFFFFFFFFFFFFFE, num_blocks = 1\<rparr>] \<and>
   extent_blocks \<lparr>start_block = 0xFFFFFFFFFFFFFFFE, num_blocks = 1\<rparr> \<inter>
     covered [\<lparr>start_block = 0xFFFFFFFFFFFFFFFD, num_blocks = 10\<rparr>] = {18446744073709551614}"
proof -
  let ?r = "\<lparr>extent_set = [\<lparr>start_block = 0, num_blocks = 1\<rparr>, \<lparr>start_block = 7, num_blocks = 1\<rparr>],
      blocks = 2, merge_touching_extents = True\<rparr>"
  have i: "invariant ?r"
    by (simp add: invariant_def total_blocks_def kSparseHole_def extent_blocks_def lo_def hi_def
        touching_def)
  have f: "FilterExtentRanges [\<lparr>start_block = 5, num_blocks = 0xFFFFFFFFFFFFFFFD\<rparr>] ?r =
     Inr [\<lparr>start_block = 5, num_blocks = 0xFFFFFFFFFFFFFFFD\<rparr>]"
    by (simp add: filter_eval_defs)
  have c: "extent_blocks \<lparr>start_block = 5, num_blocks = 0xFFFFFFFFFFFFFFFD\<rparr> \<inter>
     covered [\<lparr>start_block = 0, num_blocks = 1\<rparr>, \<lparr>start_block = 7, num_blocks = 1\<rparr>] = {7}"
    by (auto simp: extent_blocks_def covered_def lo_def hi_def)
  have h: "FilterExtentRanges [\<lparr>start_block = kSparseHole, num_blocks = 1\<rparr>] ?r =
      Inl UndefinedBehaviour"
    by (simp add: filter_eval_defs)
  have i': "invariant \<lparr>extent_set = [\<lparr>start_block = 0xFFFFFFFFFFFFFFFD, num_blocks = 10\<rparr>],
      blocks = 10, merge_touching_extents = True\<rparr>"
    by (simp add: invariant_def total_blocks_def kSparseHole_def)
  have f': "FilterExtentRanges [\<lparr>start_block = 0xFFFFFFFFFFFFFFFE, num_blocks = 1\<rparr>]
     \<lparr>extent_set = [\<lparr>start_block = 0xFFFFFFFFFFFFFFFD, num_blocks = 10\<rparr>],
      blocks = 10, merge_touching_extents = True\<rparr> =
     Inr [\<lparr>start_block = 0xFFFFFFFFFFFFFFFE, num_blocks = 1\<rparr>]"
    by (simp add: filter_eval_defs)
  have c': "extent_blocks \<lparr>start_block = 0xFFFFFFFFFFFFFFFE, num_blocks = 1\<rparr> \<inter>
     covered [\<lparr>start_block = 0xFFFFFFFFFFFFFFFD, num_blocks = 10\<rparr>] = {18446744073709551614}"
    by (auto simp: extent_blocks_def covered_def lo_def hi_def)
  from i f c h i' f' c' show ?thesis by simp
qed

end
